theory Spec2Isabelle
  imports Main "HOL-Library.Word" "HOL-Library.List_Lexorder"
begin

section \<open>Strings of UTF-16 code units\<close>

text \<open>
  A JavaScript string is a sequence of 16-bit code units; \<open>length\<close>, \<open>split\<close>,
  \<open>trim\<close>, the regular expression engine (without the \<open>u\<close> flag) and the default
  comparison of \<open>Array.prototype.sort\<close> all work on code units.
\<close>

type_synonym jchar = "16 word"
type_synonym jstring = "jchar list"

definition js :: "string \<Rightarrow> jstring" where
  "js s = map of_char s"

text \<open>
  White space as \<open>String.prototype.trim\<close> and the class escape \<open>\s\<close> see it: the
  WhiteSpace code points (TAB, VT, FF, SP, NBSP, ZWNBSP and the category Zs) together with
  the line terminators (LF, CR, LS, PS).
\<close>

definition is_white :: "jchar \<Rightarrow> bool" where
  "is_white c \<longleftrightarrow>
     c \<in> set [0x09, 0x0A, 0x0B, 0x0C, 0x0D, 0x20, 0xA0, 0x1680,
              0x2028, 0x2029, 0x202F, 0x205F, 0x3000, 0xFEFF]
     \<or> (0x2000 \<le> c \<and> c \<le> 0x200A)"

definition is_digit :: "jchar \<Rightarrow> bool" where
  "is_digit c \<longleftrightarrow> 0x30 \<le> c \<and> c \<le> 0x39"

definition is_line_terminator :: "jchar \<Rightarrow> bool" where
  "is_line_terminator c \<longleftrightarrow> c \<in> set [0x0A, 0x0D, 0x2028, 0x2029]"

text \<open>\<open>String.prototype.trim\<close>.\<close>

definition trim :: "jstring \<Rightarrow> jstring" where
  "trim s = rev (dropWhile is_white (rev (dropWhile is_white s)))"

text \<open>
  \<open>String.prototype.split\<close> with a separator of one code unit: the empty string gives
  one empty piece, and a trailing separator gives a trailing empty piece.
\<close>

fun split :: "jchar \<Rightarrow> jstring \<Rightarrow> jstring list" where
  "split sep [] = [[]]"
| "split sep (c # cs) =
     (if c = sep then [] # split sep cs
      else (case split sep cs of [] \<Rightarrow> [[c]] | l # ls \<Rightarrow> (c # l) # ls))"

text \<open>\<open>Array.prototype.join\<close> with a separator of one code unit.\<close>

fun join :: "jchar \<Rightarrow> jstring list \<Rightarrow> jstring" where
  "join sep [] = []"
| "join sep [l] = l"
| "join sep (l # l' # ls) = l @ sep # join sep (l' # ls)"

section \<open>The regular expressions of the parser\<close>

text \<open>
  The four patterns carry the flag \<open>i\<close> and not \<open>u\<close>: a pattern character and the
  members of a character class are compared with the input after Canonicalize, the
  upper-case mapping of one code unit, which never maps a code unit above 127 to one below
  128. Every character and class member written in the patterns is ASCII, so a comparison
  against them only depends on the ASCII part of the mapping; that part is what
  \<open>canonicalize\<close> is. The classes \<open>\d\<close>, \<open>\s\<close> and \<open>.\<close> are closed under the mapping
  (no other code unit is mapped to a digit, to white space or to a line terminator), so
  the flag does not change them.
\<close>

definition canonicalize :: "jchar \<Rightarrow> jchar" where
  "canonicalize ch = (if 0x61 \<le> ch \<and> ch \<le> 0x7A then ch - 0x20 else ch)"

datatype cls = Digit | Space | Dot | OneOf "jchar list" | NoneOf "jchar list"

fun cls_match :: "cls \<Rightarrow> jchar \<Rightarrow> bool" where
  "cls_match Digit ch = is_digit ch"
| "cls_match Space ch = is_white ch"
| "cls_match Dot ch = (\<not> is_line_terminator ch)"
| "cls_match (OneOf A) ch = (canonicalize ch \<in> set (map canonicalize A))"
| "cls_match (NoneOf A) ch = (canonicalize ch \<notin> set (map canonicalize A))"

text \<open>
  The constructs the patterns use: the assertions \<open>^\<close> and \<open>$\<close> (no flag \<open>m\<close>), a
  pattern character, a character class, a greedy quantifier \<open>{lo,hi}\<close> on a character class
  (\<open>*\<close> is \<open>{0,}\<close>, \<open>+\<close> is \<open>{1,}\<close>), an optional non-capturing group \<open>(?:...)?\<close> and a
  capturing group.
\<close>

datatype rx =
    Bol
  | Eol
  | Chr jchar
  | Cls cls
  | Rep cls nat "nat option"
  | Opt "rx list"
  | Grp nat "rx list"

text \<open>
  A matcher state is the end index, the input from there on and the captures. The matcher
  is the backtracking matcher of the language definition, in continuation-passing style: it
  returns the first state, in priority order, on which the continuation succeeds.
\<close>

type_synonym captures = "nat \<rightharpoonup> jstring"
type_synonym mstate = "nat \<times> jstring \<times> captures"

primrec first_some :: "('a \<Rightarrow> 'b option) \<Rightarrow> 'a list \<Rightarrow> 'b option" where
  "first_some f [] = None"
| "first_some f (x # xs) = (case f x of Some r \<Rightarrow> Some r | None \<Rightarrow> first_some f xs)"

text \<open>
  A greedy quantifier on a character class first takes the longest run it may take and
  gives characters back one at a time, down to its minimum.
\<close>

definition rep_states :: "cls \<Rightarrow> nat \<Rightarrow> nat option \<Rightarrow> mstate \<Rightarrow> mstate list" where
  "rep_states cl lo hi x = (case x of (i, s, caps) \<Rightarrow>
     (let n = length (takeWhile (cls_match cl) s);
          top = (case hi of None \<Rightarrow> n | Some h \<Rightarrow> min h n)
      in map (\<lambda>k. (i + k, drop k s, caps)) (rev [lo ..< Suc top])))"

fun m :: "rx list \<Rightarrow> mstate \<Rightarrow> (mstate \<Rightarrow> mstate option) \<Rightarrow> mstate option" where
  "m [] x c = c x"
| "m (Bol # rs) x c = (if fst x = 0 then m rs x c else None)"
| "m (Eol # rs) x c = (if fst (snd x) = [] then m rs x c else None)"
| "m (Chr a # rs) x c = (case x of (i, s, caps) \<Rightarrow> (case s of [] \<Rightarrow> None
      | ch # s' \<Rightarrow> if canonicalize ch = canonicalize a then m rs (i + 1, s', caps) c else None))"
| "m (Cls cl # rs) x c = (case x of (i, s, caps) \<Rightarrow> (case s of [] \<Rightarrow> None
      | ch # s' \<Rightarrow> if cls_match cl ch then m rs (i + 1, s', caps) c else None))"
| "m (Rep cl lo hi # rs) x c = first_some (\<lambda>y. m rs y c) (rep_states cl lo hi x)"
| "m (Opt body # rs) x c =
     (case m body x (\<lambda>y. if fst y = fst x then None else m rs y c) of
        Some r \<Rightarrow> Some r
      | None \<Rightarrow> m rs x c)"
| "m (Grp n body # rs) x c = (case x of (i, s, caps) \<Rightarrow>
     m body x (\<lambda>y. case y of (j, s', caps') \<Rightarrow>
       m rs (j, s', caps'(n \<mapsto> take (j - i) s)) c))"

text \<open>
  \<open>String.prototype.match\<close> with a pattern that is neither global nor sticky: the
  matcher is tried at every start index from 0 on, and the first success gives the
  captures.
\<close>

definition regexp_exec :: "rx list \<Rightarrow> jstring \<Rightarrow> captures option" where
  "regexp_exec p line =
     map_option (\<lambda>y. snd (snd y))
       (first_some (\<lambda>i. m p (i, drop i line, Map.empty) Some) [0 ..< Suc (length line)])"

text \<open>The date \<open>\d{1,2}\/\d{1,2}\/\d{lo,hi}\<close>, the group 1 of every pattern.\<close>

definition date_rx :: "nat \<Rightarrow> nat \<Rightarrow> rx list" where
  "date_rx lo hi =
     [Rep Digit 1 (Some 2), Chr 0x2F, Rep Digit 1 (Some 2), Chr 0x2F, Rep Digit lo (Some hi)]"

text \<open>The end of every pattern from the sender on: \<open>([^:]+):\s*(.*)$\<close>.\<close>

definition sender_rx :: "rx list" where
  "sender_rx =
     [Grp 3 [Rep (NoneOf [0x3A]) 1 None], Chr 0x3A, Rep Space 0 None,
      Grp 4 [Rep Dot 0 None], Eol]"

text \<open>The optional marker \<open>(?:\s*[AP]M)?\<close>.\<close>

definition ampm_rx :: "rx list" where
  "ampm_rx = [Rep Space 0 None, Cls (OneOf [0x41, 0x50]), Chr 0x4D]"

text \<open>
  \<^verbatim>\<open>/^\[(\d{1,2}\/\d{1,2}\/\d{2,4}),\s*(\d{1,2}:\d{2}(?::\d{2})?(?:\s*[AP]M)?)\]\s*([^:]+):\s*(.*)$/i\<close>
\<close>

definition pattern1 :: "rx list" where
  "pattern1 =
     [Bol, Chr 0x5B, Grp 1 (date_rx 2 4), Chr 0x2C, Rep Space 0 None,
      Grp 2 [Rep Digit 1 (Some 2), Chr 0x3A, Rep Digit 2 (Some 2),
             Opt [Chr 0x3A, Rep Digit 2 (Some 2)], Opt ampm_rx],
      Chr 0x5D, Rep Space 0 None] @ sender_rx"

text \<open>
  \<^verbatim>\<open>/^(\d{1,2}\/\d{1,2}\/\d{2,4}),\s*(\d{1,2}:\d{2}(?:\s*[AP]M)?)\s*-\s*([^:]+):\s*(.*)$/i\<close>
\<close>

definition pattern2 :: "rx list" where
  "pattern2 =
     [Bol, Grp 1 (date_rx 2 4), Chr 0x2C, Rep Space 0 None,
      Grp 2 [Rep Digit 1 (Some 2), Chr 0x3A, Rep Digit 2 (Some 2), Opt ampm_rx],
      Rep Space 0 None, Chr 0x2D, Rep Space 0 None] @ sender_rx"

text \<open>
  \<^verbatim>\<open>/^(\d{1,2}\/\d{1,2}\/\d{2}),\s*(\d{1,2}:\d{2}(?:\s*[AP]M)?)\s*-\s*([^:]+):\s*(.*)$/i\<close>
\<close>

definition pattern3 :: "rx list" where
  "pattern3 =
     [Bol, Grp 1 (date_rx 2 2), Chr 0x2C, Rep Space 0 None,
      Grp 2 [Rep Digit 1 (Some 2), Chr 0x3A, Rep Digit 2 (Some 2), Opt ampm_rx],
      Rep Space 0 None, Chr 0x2D, Rep Space 0 None] @ sender_rx"

text \<open>
  \<^verbatim>\<open>/^(\d{1,2}\/\d{1,2}\/\d{2}),\s*(\d{1,2}:\d{2}\s*[AP]M)\s*-\s*([^:]+):\s*(.*)$/i\<close>
\<close>

definition pattern4 :: "rx list" where
  "pattern4 =
     [Bol, Grp 1 (date_rx 2 2), Chr 0x2C, Rep Space 0 None,
      Grp 2 ([Rep Digit 1 (Some 2), Chr 0x3A, Rep Digit 2 (Some 2)] @ ampm_rx),
      Rep Space 0 None, Chr 0x2D, Rep Space 0 None] @ sender_rx"

definition patterns :: "rx list list" where
  "patterns = [pattern1, pattern2, pattern3, pattern4]"

section \<open>The parser\<close>

record Message =
  timestamp :: jstring
  sender :: jstring
  message :: jstring
  date :: jstring
  time :: jstring

record DateRange =
  range_start :: jstring
  range_end :: jstring

record ParsedData =
  groupName :: jstring
  messages :: "Message list"
  participants :: "jstring list"
  messageCount :: nat
  dateRange :: DateRange

text \<open>
  The only exception the function could raise: a method call on a capture that is
  \<open>undefined\<close>.
\<close>

datatype error = TypeError

text \<open>The local variables of the loop over the lines.\<close>

record loop_state =
  pushed :: "Message list"
  participantsSet :: "jstring list"
  currentMessage :: "Message option"

text \<open>\<open>Set.prototype.add\<close>: a set keeps its members in insertion order.\<close>

definition set_add :: "jstring \<Rightarrow> jstring list \<Rightarrow> jstring list" where
  "set_add x xs = (if x \<in> set xs then xs else xs @ [x])"

text \<open>
  The inner loop over the patterns: the first pattern that matches the line decides, and
  the loop is left.
\<close>

definition match_first :: "rx list list \<Rightarrow> jstring \<Rightarrow> captures option" where
  "match_first ps line = first_some (\<lambda>p. regexp_exec p line) ps"

text \<open>
  \<open>const [, date, time, sender, message] = match\<close>: a group that took no part in the
  match is \<open>undefined\<close>, and the code then fails on it (\<open>sender.trim()\<close>,
  \<open>message.trim()\<close>, later \<open>m.date.split\<close>).
\<close>

definition destructure :: "captures \<Rightarrow> error + (jstring \<times> jstring \<times> jstring \<times> jstring)" where
  "destructure mt =
     (case (mt 1, mt 2, mt 3, mt 4) of
        (Some d, Some t, Some s, Some b) \<Rightarrow> Inr (d, t, s, b)
      | _ \<Rightarrow> Inl TypeError)"

definition push_current :: "loop_state \<Rightarrow> Message list" where
  "push_current st =
     (case currentMessage st of Some c \<Rightarrow> pushed st @ [c] | None \<Rightarrow> pushed st)"

definition loop_body :: "rx list list \<Rightarrow> loop_state \<Rightarrow> jstring \<Rightarrow> error + loop_state" where
  "loop_body ps st line =
     (if trim line = [] then Inr st
      else case match_first ps line of
        Some mt \<Rightarrow>
          (case destructure mt of
             Inl e \<Rightarrow> Inl e
           | Inr (d, t, s, b) \<Rightarrow>
               Inr \<lparr> pushed = push_current st,
                     participantsSet = set_add (trim s) (participantsSet st),
                     currentMessage = Some \<lparr> timestamp = d @ js '', '' @ t, sender = trim s,
                       message = trim b, date = d, time = t \<rparr> \<rparr>)
      | None \<Rightarrow>
          (case currentMessage st of
             Some c \<Rightarrow>
               Inr (st \<lparr> currentMessage := Some (c \<lparr> message := message c @ 0x0A # line \<rparr>) \<rparr>)
           | None \<Rightarrow> Inr st))"

fun for_lines :: "rx list list \<Rightarrow> jstring list \<Rightarrow> loop_state \<Rightarrow> error + loop_state" where
  "for_lines ps [] st = Inr st"
| "for_lines ps (line # rest) st =
     (case loop_body ps st line of Inl e \<Rightarrow> Inl e | Inr st' \<Rightarrow> for_lines ps rest st')"

definition init_state :: loop_state where
  "init_state = \<lparr> pushed = [], participantsSet = [], currentMessage = None \<rparr>"

text \<open>
  The argument of \<open>new Date\<close>: \<open>m.date.split('/').reverse().join('-')\<close>.
\<close>

definition date_arg :: "jstring \<Rightarrow> jstring" where
  "date_arg d = join 0x2D (rev (split 0x2F d))"

text \<open>
  What follows the loop. The parameter \<open>valid\<close> stands for the date constructor of the
  host: \<open>valid s\<close> says that \<open>new Date(s).getTime()\<close> is not \<open>NaN\<close>. The language
  definition fixes it on the ISO format only and leaves every other string to the host.
  The default comparison of \<open>sort\<close> orders strings by their code units.
\<close>

definition finish :: "(jstring \<Rightarrow> bool) \<Rightarrow> loop_state \<Rightarrow> ParsedData option" where
  "finish valid st =
     (let msgs = push_current st in
      if length msgs = 0 then None
      else
        let dates = map (\<lambda>m. date_arg (date m)) msgs;
            validDates = filter valid dates
        in Some \<lparr> groupName = js ''Zero to One'',
                  messages = msgs,
                  participants = sort (participantsSet st),
                  messageCount = length msgs,
                  dateRange = \<lparr>
                    range_start = (if length validDates > 0 then date (msgs ! 0) else js ''N/A''),
                    range_end = (if length validDates > 0 then date (msgs ! (length msgs - 1))
                                 else js ''N/A'') \<rparr> \<rparr>)"

definition parse_lines ::
  "rx list list \<Rightarrow> (jstring \<Rightarrow> bool) \<Rightarrow> jstring list \<Rightarrow> error + ParsedData option" where
  "parse_lines ps valid lines =
     (case for_lines ps lines init_state of
        Inl e \<Rightarrow> Inl e
      | Inr st \<Rightarrow> Inr (finish valid st))"

definition parse_with ::
  "rx list list \<Rightarrow> (jstring \<Rightarrow> bool) \<Rightarrow> jstring \<Rightarrow> error + ParsedData option" where
  "parse_with ps valid text = parse_lines ps valid (split 0x0A text)"

definition parseWhatsAppChat :: "(jstring \<Rightarrow> bool) \<Rightarrow> jstring \<Rightarrow> error + ParsedData option" where
  "parseWhatsAppChat valid text = parse_with patterns valid text"

section \<open>Notions for the proofs\<close>

subsection \<open>The captures of a match\<close>

text \<open>
  The capturing groups of a pattern that are in no optional part, and the relation of a
  matcher state to a later one that has kept its captures and defined the groups \<open>G\<close>.
\<close>

fun top_groups :: "rx list \<Rightarrow> nat set" where
  "top_groups [] = {}"
| "top_groups (Grp n body # rs) = insert n (top_groups rs)"
| "top_groups (r # rs) = top_groups rs"

definition keeps :: "mstate \<Rightarrow> nat set \<Rightarrow> mstate \<Rightarrow> bool" where
  "keeps x G y \<longleftrightarrow> dom (snd (snd x)) \<union> G \<subseteq> dom (snd (snd y))"

text \<open>
  A pattern list is safe when each of its patterns has the groups 1 to 4 outside every
  optional part: a match then defines the four captures the code reads.
\<close>

definition safe :: "rx list list \<Rightarrow> bool" where
  "safe ps \<longleftrightarrow> (\<forall>p \<in> set ps. {1, 2, 3, 4} \<subseteq> top_groups p)"

subsection \<open>Header lines and the transcript\<close>

text \<open>
  The fields of a header line: the captures of the first pattern that matches a line that
  is not blank.
\<close>

definition header ::
  "rx list list \<Rightarrow> jstring \<Rightarrow> (jstring \<times> jstring \<times> jstring \<times> jstring) option" where
  "header ps line =
     (if trim line = [] then None
      else case match_first ps line of
        None \<Rightarrow> None
      | Some mt \<Rightarrow> (case destructure mt of Inl e \<Rightarrow> None | Inr f \<Rightarrow> Some f))"

definition is_header :: "rx list list \<Rightarrow> jstring \<Rightarrow> bool" where
  "is_header ps line \<longleftrightarrow> header ps line \<noteq> None"

text \<open>The numbers of the header lines, in increasing order.\<close>

definition header_indices :: "rx list list \<Rightarrow> jstring list \<Rightarrow> nat list" where
  "header_indices ps ls = filter (\<lambda>i. match_first ps (ls ! i) \<noteq> None) [0 ..< length ls]"

text \<open>The message that the loop opens on a header line.\<close>

definition header_message :: "jstring \<times> jstring \<times> jstring \<times> jstring \<Rightarrow> Message" where
  "header_message f =
     (case f of (d, t, s, b) \<Rightarrow>
        \<lparr> timestamp = d @ js '', '' @ t, sender = trim s, message = trim b,
          date = d, time = t \<rparr>)"

text \<open>The loop body on a safe pattern list, where it cannot fail.\<close>

definition next_state :: "rx list list \<Rightarrow> loop_state \<Rightarrow> jstring \<Rightarrow> loop_state" where
  "next_state ps st line =
     (if trim line = [] then st
      else case header ps line of
        Some f \<Rightarrow>
          \<lparr> pushed = push_current st,
            participantsSet = set_add (sender (header_message f)) (participantsSet st),
            currentMessage = Some (header_message f) \<rparr>
      | None \<Rightarrow>
          (case currentMessage st of
             Some c \<Rightarrow> st \<lparr> currentMessage := Some (c \<lparr> message := message c @ 0x0A # line \<rparr>) \<rparr>
           | None \<Rightarrow> st))"

text \<open>
  The messages as the specification describes them: every header line starts a message,
  whose body is the trailing text of the header line joined by newlines with the lines
  that follow it up to the next header line or the end of the input, blank lines left out.
\<close>

definition body_lines :: "rx list list \<Rightarrow> jstring list \<Rightarrow> jstring list" where
  "body_lines ps ls = filter (\<lambda>l. trim l \<noteq> []) (takeWhile (\<lambda>l. header ps l = None) ls)"

fun transcript :: "rx list list \<Rightarrow> jstring list \<Rightarrow> Message list" where
  "transcript ps [] = []"
| "transcript ps (l # ls) =
     (case header ps l of
        Some f \<Rightarrow>
          (header_message f) \<lparr> message :=
             join 0x0A (message (header_message f) # body_lines ps ls) \<rparr> # transcript ps ls
      | None \<Rightarrow> transcript ps ls)"

text \<open>The messages of a loop state whose open message still receives the lines \<open>cs\<close>.\<close>

definition extend :: "loop_state \<Rightarrow> jstring list \<Rightarrow> Message list" where
  "extend st cs =
     (case currentMessage st of
        None \<Rightarrow> pushed st
      | Some c \<Rightarrow> pushed st @ [c \<lparr> message := message c @ concat (map ((#) 0x0A) cs) \<rparr>])"

text \<open>
  A message is started by a line when the line is a header line, the message has the
  fields of that line and its body begins with the trimmed trailing text of the line.
\<close>

definition started_by :: "rx list list \<Rightarrow> jstring \<Rightarrow> Message \<Rightarrow> bool" where
  "started_by ps line msg =
     (case header ps line of
        None \<Rightarrow> False
      | Some f \<Rightarrow>
          timestamp msg = timestamp (header_message f) \<and>
          sender msg = sender (header_message f) \<and>
          date msg = date (header_message f) \<and>
          time msg = time (header_message f) \<and>
          take (length (message (header_message f))) (message msg) = message (header_message f))"

subsection \<open>Comparing patterns\<close>

text \<open>
  A continuation rejects a class when it fails on every state whose next character is in
  the class; one continuation is below another when every success of the first is a
  success of the second, with the same result. \<open>close_group\<close> is the continuation of the
  body of a capturing group.
\<close>

definition rejects :: "cls \<Rightarrow> (mstate \<Rightarrow> mstate option) \<Rightarrow> bool" where
  "rejects cl k \<longleftrightarrow> (\<forall>i ch s caps. cls_match cl ch \<longrightarrow> k (i, ch # s, caps) = None)"

definition below :: "(mstate \<Rightarrow> mstate option) \<Rightarrow> (mstate \<Rightarrow> mstate option) \<Rightarrow> bool" where
  "below k k' \<longleftrightarrow> (\<forall>y r. k y = Some r \<longrightarrow> k' y = Some r)"

definition close_group ::
  "nat \<Rightarrow> mstate \<Rightarrow> (mstate \<Rightarrow> mstate option) \<Rightarrow> mstate \<Rightarrow> mstate option" where
  "close_group n x k y =
     (case y of (j, s', caps') \<Rightarrow> k (j, s', caps'(n \<mapsto> take (j - fst x) (fst (snd x)))))"

section \<open>Hosts and inputs for the examples\<close>

text \<open>
  A date constructor for the examples: it reads the date-only form \<open>YYYY-MM-DD\<close> of the
  ISO format, with a month from 1 to 12 and a day from 1 to 31, and rejects every other
  string, which the language definition allows.
\<close>

definition number :: "jstring \<Rightarrow> nat" where
  "number s = foldl (\<lambda>n c. 10 * n + (unat c - 48)) 0 s"

definition iso_host :: "jstring \<Rightarrow> bool" where
  "iso_host s =
     (case split 0x2D s of
        [y, mo, d] \<Rightarrow>
          list_all is_digit (y @ mo @ d) \<and>
          length y = 4 \<and> length mo = 2 \<and> length d = 2 \<and>
          1 \<le> number mo \<and> number mo \<le> 12 \<and> 1 \<le> number d \<and> number d \<le> 31
      | _ \<Rightarrow> False)"

text \<open>The example of the specification.\<close>

definition example_lines :: "jstring list" where
  "example_lines =
     [js ''[12/5/23, 9:04:01 PM] Alice: Hello there'',
      js ''how are you?'',
      js ''[12/5/23, 9:05:00 PM] Bob: I'm fine'']"

definition example_chat :: jstring where
  "example_chat = join 0x0A example_lines"

definition example_alice :: Message where
  "example_alice =
     \<lparr> timestamp = js ''12/5/23, 9:04:01 PM'', sender = js ''Alice'',
       message = js ''Hello there'' @ 0x0A # js ''how are you?'',
       date = js ''12/5/23'', time = js ''9:04:01 PM'' \<rparr>"

definition example_bob :: Message where
  "example_bob =
     \<lparr> timestamp = js ''12/5/23, 9:05:00 PM'', sender = js ''Bob'',
       message = js ''I'm fine'',
       date = js ''12/5/23'', time = js ''9:05:00 PM'' \<rparr>"

definition example_messages :: "Message list" where
  "example_messages = [example_alice, example_bob]"

definition example_result :: "jstring \<Rightarrow> ParsedData" where
  "example_result day =
     \<lparr> groupName = js ''Zero to One'',
       messages = example_messages,
       participants = [js ''Alice'', js ''Bob''],
       messageCount = 2,
       dateRange = \<lparr> range_start = day, range_end = day \<rparr> \<rparr>"

text \<open>
  The result for an input of the one line \<open>[d, 9:04] A: x\<close> with the date token \<open>d\<close>,
  when both ends of the date range are \<open>day\<close>.
\<close>

definition single_message :: "jstring \<Rightarrow> Message" where
  "single_message d =
     \<lparr> timestamp = d @ js '', 9:04'', sender = js ''A'', message = js ''x'',
       date = d, time = js ''9:04'' \<rparr>"

definition single_result :: "jstring \<Rightarrow> jstring \<Rightarrow> ParsedData" where
  "single_result d day =
     \<lparr> groupName = js ''Zero to One'',
       messages = [single_message d],
       participants = [js ''A''],
       messageCount = 1,
       dateRange = \<lparr> range_start = day, range_end = day \<rparr> \<rparr>"

section \<open>Properties of the matcher and of the loop\<close>

subsection \<open>Groups outside optional parts are defined by a match\<close>

lemma first_some_SomeD:
  "first_some f xs = Some r \<Longrightarrow> \<exists>x \<in> set xs. f x = Some r"
  by (induction xs) (auto split: option.splits)

lemma first_some_None_iff:
  "first_some f xs = None \<longleftrightarrow> (\<forall>x \<in> set xs. f x = None)"
  by (induction xs) (auto split: option.splits)

lemma rep_states_caps:
  "y \<in> set (rep_states cl lo hi x) \<Longrightarrow> snd (snd y) = snd (snd x)"
  by (cases x) (auto simp: rep_states_def Let_def)

lemma keeps_refl: "keeps x {} x"
  by (simp add: keeps_def)

lemma keeps_trans: "keeps x G y \<Longrightarrow> keeps y H z \<Longrightarrow> keeps x (G \<union> H) z"
  unfolding keeps_def by (meson Un_least Un_upper1 Un_upper2 order_trans sup.boundedE)

lemma keeps_weaken: "keeps x G y \<Longrightarrow> H \<subseteq> G \<Longrightarrow> keeps x H y"
  unfolding keeps_def by (meson Un_mono order_refl order_trans)

lemma m_groups:
  "m rs x c = Some r \<Longrightarrow> \<exists>y. c y = Some r \<and> keeps x (top_groups rs) y"
proof (induction rs x c rule: m.induct)
  case (1 x c)
  then show ?case using keeps_refl by (intro exI[of _ x]) simp
next
  case (2 rs x c)
  then show ?case by (simp split: if_splits)
next
  case (3 rs x c)
  then show ?case by (simp split: if_splits)
next
  case (4 a rs x c)
  obtain i s caps where x: "x = (i, s, caps)" by (cases x) auto
  from 4(2) x obtain ch s' where s: "s = ch # s'" "canonicalize ch = canonicalize a"
    "m rs (i + 1, s', caps) c = Some r" by (auto split: list.splits if_splits)
  from 4(1)[OF x[symmetric] refl s(1) s(2) s(3)] show ?case
    by (simp add: keeps_def x)
next
  case (5 cl rs x c)
  obtain i s caps where x: "x = (i, s, caps)" by (cases x) auto
  from 5(2) x obtain ch s' where s: "s = ch # s'" "cls_match cl ch"
    "m rs (i + 1, s', caps) c = Some r" by (auto split: list.splits if_splits)
  from 5(1)[OF x[symmetric] refl s(1) s(2) s(3)] show ?case
    by (simp add: keeps_def x)
next
  case (6 cl lo hi rs x c)
  from 6(2) obtain y where y: "y \<in> set (rep_states cl lo hi x)" "m rs y c = Some r"
    by (auto dest: first_some_SomeD)
  from 6(1)[OF y(2)] show ?case
    using rep_states_caps[OF y(1)] by (simp add: keeps_def)
next
  case (7 body rs x c)
  show ?case
  proof (cases "m body x (\<lambda>y. if fst y = fst x then None else m rs y c)")
    case None
    with 7(3)[OF None] 7(4) show ?thesis by simp
  next
    case (Some r')
    with 7(4) have r': "r' = r" by simp
    from 7(2)[OF Some[unfolded r']] obtain y where
      y: "(if fst y = fst x then None else m rs y c) = Some r"
         "keeps x (top_groups body) y" by blast
    then have ne: "fst y \<noteq> fst x" and my: "m rs y c = Some r" by (auto split: if_splits)
    from 7(1)[OF ne my] obtain z where z: "c z = Some r" "keeps y (top_groups rs) z" by blast
    have "keeps x (top_groups (Opt body # rs)) z"
      using keeps_weaken[OF keeps_trans[OF y(2) z(2)]] by simp
    with z(1) show ?thesis by blast
  qed
next
  case (8 n body rs x c)
  obtain i s caps where x: "x = (i, s, caps)" by (cases x) auto
  from 8(3) x have "m body x (\<lambda>y. case y of (j, s', caps') \<Rightarrow>
       m rs (j, s', caps'(n \<mapsto> take (j - i) s)) c) = Some r" by simp
  from 8(2)[OF x[symmetric] refl this] obtain y where
    y: "(case y of (j, s', caps') \<Rightarrow> m rs (j, s', caps'(n \<mapsto> take (j - i) s)) c) = Some r"
       "keeps x (top_groups body) y" by blast
  obtain j s' caps' where y': "y = (j, s', caps')" by (cases y) auto
  from y(1) y' have "m rs (j, s', caps'(n \<mapsto> take (j - i) s)) c = Some r" by simp
  from 8(1)[OF x[symmetric] refl this] obtain z where
    z: "c z = Some r" "keeps (j, s', caps'(n \<mapsto> take (j - i) s)) (top_groups rs) z"
    by blast
  have "keeps y {n} (j, s', caps'(n \<mapsto> take (j - i) s))"
    by (simp add: keeps_def y')
  from keeps_trans[OF keeps_trans[OF y(2) this] z(2)]
  have "keeps x (top_groups (Grp n body # rs)) z"
    by (rule keeps_weaken) auto
  with z(1) show ?case by blast
qed

subsection \<open>A match defines the four captures\<close>

lemma regexp_exec_groups:
  assumes "regexp_exec p line = Some mt"
  shows "top_groups p \<subseteq> dom mt"
proof -
  from assms obtain y where
    y: "first_some (\<lambda>i. m p (i, drop i line, Map.empty) Some) [0 ..< Suc (length line)] = Some y"
    and mt: "mt = snd (snd y)"
    by (auto simp: regexp_exec_def)
  from first_some_SomeD[OF y] obtain i where "m p (i, drop i line, Map.empty) Some = Some y"
    by blast
  from m_groups[OF this] have "keeps (i, drop i line, Map.empty) (top_groups p) y"
    by auto
  then show ?thesis by (simp add: keeps_def mt)
qed

lemma match_first_SomeD:
  "match_first ps line = Some mt \<Longrightarrow> \<exists>p \<in> set ps. regexp_exec p line = Some mt"
  unfolding match_first_def by (rule first_some_SomeD)

lemma match_first_None_iff:
  "match_first ps line = None \<longleftrightarrow> (\<forall>p \<in> set ps. regexp_exec p line = None)"
  unfolding match_first_def by (rule first_some_None_iff)

lemma safe_destructure:
  assumes "safe ps" and "match_first ps line = Some mt"
  shows "\<exists>d t s b. destructure mt = Inr (d, t, s, b) \<and>
           mt 1 = Some d \<and> mt 2 = Some t \<and> mt 3 = Some s \<and> mt 4 = Some b"
proof -
  from match_first_SomeD[OF assms(2)] obtain p where
    p: "p \<in> set ps" "regexp_exec p line = Some mt" by blast
  from regexp_exec_groups[OF p(2)] assms(1) p(1) have "{1, 2, 3, 4} \<subseteq> dom mt"
    unfolding safe_def by blast
  then obtain d t s b where "mt 1 = Some d" "mt 2 = Some t" "mt 3 = Some s" "mt 4 = Some b"
    by (auto simp: dom_def)
  then show ?thesis by (simp add: destructure_def)
qed

lemma header_None_iff:
  assumes "safe ps"
  shows "header ps line = None \<longleftrightarrow> trim line = [] \<or> match_first ps line = None"
proof (cases "match_first ps line")
  case None
  then show ?thesis by (simp add: header_def)
next
  case (Some mt)
  from safe_destructure[OF assms Some] show ?thesis
    by (auto simp: header_def Some)
qed

subsection \<open>The loop as a fold\<close>

lemma loop_body_safe:
  assumes "safe ps"
  shows "loop_body ps st line = Inr (next_state ps st line)"
proof (cases "trim line = []")
  case True
  then show ?thesis by (simp add: loop_body_def next_state_def)
next
  case False
  show ?thesis
  proof (cases "match_first ps line")
    case None
    then show ?thesis using False
      by (simp add: loop_body_def next_state_def header_def split: option.splits)
  next
    case (Some mt)
    from safe_destructure[OF assms Some] obtain d t s b where
      "destructure mt = Inr (d, t, s, b)" by blast
    then show ?thesis using False Some
      by (simp add: loop_body_def next_state_def header_def header_message_def)
  qed
qed

lemma for_lines_safe:
  assumes "safe ps"
  shows "for_lines ps lines st = Inr (foldl (next_state ps) st lines)"
  by (induction lines arbitrary: st) (simp_all add: loop_body_safe[OF assms])

lemma parse_lines_safe:
  assumes "safe ps"
  shows "parse_lines ps valid lines = Inr (finish valid (foldl (next_state ps) init_state lines))"
  by (simp add: parse_lines_def for_lines_safe[OF assms])

lemma safe_patterns: "safe patterns"
  by (simp add: safe_def patterns_def pattern1_def pattern2_def pattern3_def pattern4_def
      date_rx_def sender_rx_def ampm_rx_def)

lemma parse_fold:
  "parseWhatsAppChat valid text =
     Inr (finish valid (foldl (next_state patterns) init_state (split 0x0A text)))"
  by (simp add: parseWhatsAppChat_def parse_with_def parse_lines_safe[OF safe_patterns])

subsection \<open>The loop computes the transcript\<close>

lemma join_Cons: "join sep (x # xs) = x @ concat (map ((#) sep) xs)"
  by (induction xs arbitrary: x) simp_all

lemma takeWhile_stop: "\<not> P y \<Longrightarrow> takeWhile P (xs @ y # ys) = takeWhile P xs"
  by (induction xs) simp_all

lemma dropWhile_stop: "\<not> P y \<Longrightarrow> dropWhile P (xs @ y # ys) = dropWhile P xs @ y # ys"
  by (induction xs) simp_all

lemma transcript_dropWhile:
  "transcript ps (dropWhile (\<lambda>l. header ps l = None) ls) = transcript ps ls"
  by (induction ls) simp_all

lemma extend_Nil: "extend st [] = push_current st"
  by (simp add: extend_def push_current_def split: option.splits)

lemma next_state_blank: "trim line = [] \<Longrightarrow> next_state ps st line = st"
  by (simp add: next_state_def)

lemma header_blank: "trim line = [] \<Longrightarrow> header ps line = None"
  by (simp add: header_def)

lemma fold_transcript:
  "push_current (foldl (next_state ps) st ls) =
     extend st (body_lines ps ls) @ transcript ps (dropWhile (\<lambda>l. header ps l = None) ls)"
proof (induction ls arbitrary: st)
  case Nil
  show ?case by (simp add: body_lines_def extend_Nil)
next
  case (Cons l ls)
  show ?case
  proof (cases "header ps l")
    case (Some f)
    then have nb: "trim l \<noteq> []" using header_blank by force
    let ?st = "next_state ps st l"
    have st: "?st = \<lparr> pushed = push_current st,
        participantsSet = set_add (sender (header_message f)) (participantsSet st),
        currentMessage = Some (header_message f) \<rparr>"
      using nb Some by (simp add: next_state_def)
    have "extend ?st (body_lines ps ls) =
        push_current st @ [(header_message f) \<lparr> message :=
           join 0x0A (message (header_message f) # body_lines ps ls) \<rparr>]"
      by (simp add: st extend_def join_Cons)
    then show ?thesis
      using Cons[of ?st] Some
      by (simp add: body_lines_def extend_Nil transcript_dropWhile)
  next
    case None
    show ?thesis
    proof (cases "trim l = []")
      case True
      then show ?thesis using Cons[of st] None
        by (simp add: next_state_blank body_lines_def)
    next
      case False
      show ?thesis
      proof (cases "currentMessage st")
        case cn: None
        then have "next_state ps st l = st" using False None by (simp add: next_state_def)
        then show ?thesis using Cons[of st] None cn
          by (simp add: body_lines_def extend_def)
      next
        case (Some c)
        let ?st = "st \<lparr> currentMessage := Some (c \<lparr> message := message c @ 0x0A # l \<rparr>) \<rparr>"
        have "next_state ps st l = ?st" using False None Some by (simp add: next_state_def)
        then show ?thesis using Cons[of ?st] None Some False
          by (simp add: body_lines_def extend_def)
      qed
    qed
  qed
qed

lemma run_transcript:
  "push_current (foldl (next_state ps) init_state ls) = transcript ps ls"
  using fold_transcript[of ps init_state ls]
  by (simp add: extend_def init_state_def transcript_dropWhile)

lemma transcript_length:
  "length (transcript ps ls) = length (filter (is_header ps) ls)"
  by (induction ls) (auto simp: is_header_def split: option.splits)

lemma transcript_append_header:
  "header ps h \<noteq> None \<Longrightarrow>
   transcript ps (pre @ h # rest) = transcript ps pre @ transcript ps (h # rest)"
proof (induction pre)
  case Nil
  show ?case by simp
next
  case (Cons l pre)
  then have "body_lines ps (pre @ h # rest) = body_lines ps pre"
    by (simp add: body_lines_def takeWhile_stop)
  with Cons show ?case by (simp split: option.splits)
qed

lemma transcript_no_header:
  "\<forall>l \<in> set ls. header ps l = None \<Longrightarrow> transcript ps ls = []"
  by (induction ls) simp_all

lemma transcript_skip:
  "\<forall>l \<in> set pre. header ps l = None \<Longrightarrow> transcript ps (pre @ post) = transcript ps post"
  by (induction pre) simp_all

subsection \<open>A header line is not blank\<close>

lemma regexp_exec_Bol:
  "regexp_exec (Bol # rs) line = map_option (\<lambda>y. snd (snd y)) (m rs (0, line, Map.empty) Some)"
proof -
  let ?f = "\<lambda>i. m (Bol # rs) (i, drop i line, Map.empty) Some"
  have a: "first_some ?f [Suc 0 ..< Suc (length line)] = None"
    by (auto simp: first_some_None_iff)
  have b: "[0 ..< Suc (length line)] = 0 # [Suc 0 ..< Suc (length line)]"
    by (simp add: upt_rec)
  have "first_some ?f [0 ..< Suc (length line)] = ?f 0"
    unfolding b first_some.simps a by (simp split: option.splits)
  then show ?thesis
    unfolding regexp_exec_def by simp
qed

lemma rep_states_nonempty:
  assumes "first_some f (rep_states cl lo hi (i, s, caps)) = Some r"
  shows "lo \<le> length (takeWhile (cls_match cl) s)"
proof -
  from first_some_SomeD[OF assms] have "rep_states cl lo hi (i, s, caps) \<noteq> []" by auto
  then show ?thesis
    by (auto simp: rep_states_def Let_def split: option.splits if_splits)
qed

lemma white_not_digit: "is_white c \<Longrightarrow> \<not> is_digit c"
  unfolding is_white_def is_digit_def by (auto simp: word_le_nat_alt)

lemma white_not_bracket: "is_white c \<Longrightarrow> canonicalize c \<noteq> canonicalize 0x5B"
  unfolding is_white_def canonicalize_def by (auto simp: word_le_nat_alt)

lemma trim_nonblank: "\<not> is_white ch \<Longrightarrow> trim (ch # s) \<noteq> []"
  by (simp add: trim_def)

lemma date_rx_first:
  assumes "map_option f (m (Grp 1 (date_rx lo hi) # rs) (0, line, Map.empty) c) = Some mt"
  shows "\<exists>ch s. line = ch # s \<and> \<not> is_white ch"
proof -
  from assms have "1 \<le> length (takeWhile (cls_match Digit) line)"
    by (auto simp: date_rx_def dest: rep_states_nonempty)
  then show ?thesis using white_not_digit by (cases line) (auto split: if_splits)
qed

lemma bracket_first:
  assumes "map_option f (m (Chr 0x5B # rs) (0, line, Map.empty) c) = Some mt"
  shows "\<exists>ch s. line = ch # s \<and> \<not> is_white ch"
  using assms white_not_bracket by (cases line) (auto split: if_splits)

lemma pattern_nonblank:
  assumes "p \<in> set patterns" and "regexp_exec p line = Some mt"
  shows "trim line \<noteq> []"
proof -
  consider "p = pattern1" | "p = pattern2" | "p = pattern3" | "p = pattern4"
    using assms(1) by (auto simp: patterns_def)
  then have "\<exists>ch s. line = ch # s \<and> \<not> is_white ch"
  proof cases
    case 1
    show ?thesis
      using assms(2) unfolding 1 pattern1_def append_Cons append_Nil regexp_exec_Bol
      by (rule bracket_first)
  next
    case 2
    show ?thesis
      using assms(2) unfolding 2 pattern2_def append_Cons append_Nil regexp_exec_Bol
      by (rule date_rx_first)
  next
    case 3
    show ?thesis
      using assms(2) unfolding 3 pattern3_def append_Cons append_Nil regexp_exec_Bol
      by (rule date_rx_first)
  next
    case 4
    show ?thesis
      using assms(2) unfolding 4 pattern4_def append_Cons append_Nil regexp_exec_Bol
      by (rule date_rx_first)
  qed
  then show ?thesis using trim_nonblank by blast
qed

lemma match_first_nonblank:
  "match_first patterns line = Some mt \<Longrightarrow> trim line \<noteq> []"
  using match_first_SomeD pattern_nonblank by blast

lemma header_patterns_None_iff:
  "header patterns line = None \<longleftrightarrow> match_first patterns line = None"
  using header_None_iff[OF safe_patterns, of line] match_first_nonblank[of line]
  by (cases "match_first patterns line") auto

lemma header_patterns_Some:
  assumes "match_first patterns line = Some mt"
  shows "\<exists>d t s b. header patterns line = Some (d, t, s, b) \<and>
           mt 1 = Some d \<and> mt 2 = Some t \<and> mt 3 = Some s \<and> mt 4 = Some b"
proof -
  from safe_destructure[OF safe_patterns assms] obtain d t s b where
    f: "destructure mt = Inr (d, t, s, b)"
       "mt 1 = Some d" "mt 2 = Some t" "mt 3 = Some s" "mt 4 = Some b" by blast
  have "header patterns line = Some (d, t, s, b)"
    using match_first_nonblank[OF assms] assms f(1) by (simp add: header_def)
  with f show ?thesis by blast
qed

subsection \<open>The example\<close>

lemma example_split: "split 0x0A example_chat = example_lines"
  by code_simp

lemma example_loop:
  "for_lines patterns example_lines init_state =
     Inr \<lparr> pushed = [example_alice],
           participantsSet = [js ''Alice'', js ''Bob''],
           currentMessage = Some example_bob \<rparr>"
  by code_simp

lemma example_date_arg: "date_arg (js ''12/5/23'') = js ''23-5-12''"
  by code_simp

lemma example_hosts: "\<not> iso_host (js ''23-5-12'')" "iso_host (js ''2023-02-31'')"
  by code_simp+

lemma example_sorted: "js ''Alice'' \<le> js ''Bob''"
  by code_simp

lemma example_dates: "date example_alice = js ''12/5/23''" "date example_bob = js ''12/5/23''"
  by (simp_all add: example_alice_def example_bob_def)

lemma example_finish:
  "finish valid \<lparr> pushed = [example_alice],
           participantsSet = [js ''Alice'', js ''Bob''],
           currentMessage = Some example_bob \<rparr> =
   Some (example_result (if valid (js ''23-5-12'') then js ''12/5/23'' else js ''N/A''))"
  unfolding finish_def push_current_def Let_def
  by (simp add: example_sorted example_dates example_date_arg example_result_def
      example_messages_def)

lemma example_parse:
  "parse_with patterns valid example_chat =
     Inr (Some (example_result (if valid (js ''23-5-12'') then js ''12/5/23'' else js ''N/A'')))"
  unfolding parse_with_def parse_lines_def example_split example_loop
  by (simp add: example_finish)

lemma single_loop:
  "for_lines patterns (split 0x0A (js ''[12/5/23, 9:04] A: x'')) init_state =
     Inr \<lparr> pushed = [], participantsSet = [js ''A''],
           currentMessage = Some (single_message (js ''12/5/23'')) \<rparr>"
  "for_lines patterns (split 0x0A (js ''[31/02/2023, 9:04] A: x'')) init_state =
     Inr \<lparr> pushed = [], participantsSet = [js ''A''],
           currentMessage = Some (single_message (js ''31/02/2023'')) \<rparr>"
  by code_simp+

lemma single_date_arg: "date_arg (js ''31/02/2023'') = js ''2023-02-31''"
  by code_simp

lemma single_finish:
  "finish valid \<lparr> pushed = [], participantsSet = [js ''A''],
       currentMessage = Some (single_message d) \<rparr> =
   Some (single_result d (if valid (date_arg d) then d else js ''N/A''))"
  unfolding finish_def push_current_def Let_def
  by (simp add: single_message_def single_result_def)

lemma single_parse:
  "parseWhatsAppChat valid (js ''[12/5/23, 9:04] A: x'') =
     Inr (Some (single_result (js ''12/5/23'')
       (if valid (js ''23-5-12'') then js ''12/5/23'' else js ''N/A'')))"
  "parseWhatsAppChat valid (js ''[31/02/2023, 9:04] A: x'') =
     Inr (Some (single_result (js ''31/02/2023'')
       (if valid (js ''2023-02-31'') then js ''31/02/2023'' else js ''N/A'')))"
  unfolding parseWhatsAppChat_def parse_with_def parse_lines_def single_loop
  by (simp_all add: single_finish example_date_arg single_date_arg)

subsection \<open>Lines of a text\<close>

lemma split_no_sep: "sep \<notin> set l \<Longrightarrow> split sep l = [l]"
  by (induction l) auto

lemma split_line: "sep \<notin> set l \<Longrightarrow> split sep (l @ sep # rest) = l # split sep rest"
  by (induction l) auto

lemma split_join:
  "ls \<noteq> [] \<Longrightarrow> \<forall>l \<in> set ls. sep \<notin> set l \<Longrightarrow> split sep (join sep ls) = ls"
proof (induction sep ls rule: join.induct)
  case (1 sep)
  then show ?case by simp
next
  case (2 sep l)
  then show ?case by (simp add: split_no_sep)
next
  case (3 sep l l' ls)
  then show ?case by (simp add: split_line)
qed

lemma trim_Nil: "trim [] = []"
  by (simp add: trim_def)

lemma parse_join:
  assumes "\<forall>l \<in> set ls. 0x0A \<notin> set l"
  shows "parse_with ps valid (join 0x0A ls) = parse_lines ps valid ls"
proof (cases "ls = []")
  case True
  then show ?thesis
    by (simp add: parse_with_def parse_lines_def loop_body_def trim_Nil)
next
  case False
  with assms show ?thesis by (simp add: parse_with_def split_join)
qed

subsection \<open>Lines that leave the state as it is\<close>

lemma loop_body_blank: "trim line = [] \<Longrightarrow> loop_body ps st line = Inr st"
  by (simp add: loop_body_def)

lemma for_lines_append:
  "for_lines ps (xs @ ys) st =
     (case for_lines ps xs st of Inl e \<Rightarrow> Inl e | Inr st' \<Rightarrow> for_lines ps ys st')"
  by (induction xs arbitrary: st) (simp_all split: sum.splits)

lemma for_lines_drop_blank:
  "trim b = [] \<Longrightarrow> for_lines ps (pre @ b # post) st = for_lines ps (pre @ post) st"
  by (simp add: for_lines_append loop_body_blank split: sum.splits)

lemma loop_body_leading:
  assumes "match_first ps line = None"
  shows "loop_body ps init_state line = Inr init_state"
  using assms by (simp add: loop_body_def init_state_def)

lemma for_lines_leading:
  "\<forall>l \<in> set pre. match_first ps l = None \<Longrightarrow> for_lines ps pre init_state = Inr init_state"
  by (induction pre) (simp_all add: loop_body_leading)

lemma finish_messages:
  "finish valid st = Some r \<Longrightarrow> messages r = push_current st \<and> push_current st \<noteq> []"
  by (auto simp: finish_def Let_def split: if_splits)

lemma finish_None_iff: "finish valid st = None \<longleftrightarrow> push_current st = []"
  by (simp add: finish_def Let_def)

lemma parse_messages:
  assumes "parseWhatsAppChat valid text = Inr (Some r)"
  shows "messages r = transcript patterns (split 0x0A text)"
  using assms finish_messages[of valid _ r] by (simp add: parse_fold run_transcript)

lemma transcript_Nil_iff:
  "transcript ps ls = [] \<longleftrightarrow> (\<forall>l \<in> set ls. header ps l = None)"
  by (induction ls) (auto split: option.splits)

lemma finish_range:
  assumes "finish valid st = Some r"
  shows "range_start (dateRange r) =
           (if \<exists>msg \<in> set (push_current st). valid (date_arg (date msg))
            then date (hd (push_current st)) else js ''N/A'')
       \<and> range_end (dateRange r) =
           (if \<exists>msg \<in> set (push_current st). valid (date_arg (date msg))
            then date (last (push_current st)) else js ''N/A'')"
proof -
  let ?ms = "push_current st"
  have v: "0 < length (filter valid (map (\<lambda>m. date_arg (date m)) ?ms)) \<longleftrightarrow>
      (\<exists>msg \<in> set ?ms. valid (date_arg (date msg)))"
    by (auto simp: filter_empty_conv)
  have ne: "?ms \<noteq> []" using finish_messages[OF assms] by simp
  have hl: "?ms ! 0 = hd ?ms" "?ms ! (length ?ms - 1) = last ?ms"
    using ne by (simp_all add: hd_conv_nth last_conv_nth)
  from assms ne show ?thesis
    unfolding finish_def Let_def v hl
    by (auto split: if_splits)
qed

lemma parse_None_iff:
  "parseWhatsAppChat valid text = Inr None \<longleftrightarrow> transcript patterns (split 0x0A text) = []"
  by (simp add: parse_fold finish_None_iff run_transcript)

text \<open>
  The date range of a result is decided by the host on the reversed date tokens of the
  messages.
\<close>

lemma parse_date_range:
  assumes "parseWhatsAppChat valid text = Inr (Some r)"
  shows "((\<forall>msg \<in> set (messages r). \<not> valid (date_arg (date msg))) \<longrightarrow>
            range_start (dateRange r) = js ''N/A'' \<and> range_end (dateRange r) = js ''N/A'')
       \<and> ((\<exists>msg \<in> set (messages r). valid (date_arg (date msg))) \<longrightarrow>
            range_start (dateRange r) = date (hd (messages r)) \<and>
            range_end (dateRange r) = date (last (messages r)))"
proof -
  from assms obtain st where st: "finish valid st = Some r"
    by (auto simp: parse_fold)
  from finish_messages[OF st] have ms: "messages r = push_current st" by simp
  from finish_range[OF st] show ?thesis
    unfolding ms by (simp split: if_splits)
qed

subsection \<open>Participants\<close>

lemma set_set_add: "set (set_add x xs) = insert x (set xs)"
  by (auto simp: set_add_def)

lemma distinct_set_add: "distinct xs \<Longrightarrow> distinct (set_add x xs)"
  by (simp add: set_add_def)

lemma transcript_senders:
  "map sender (transcript ps ls) =
     map (\<lambda>f. sender (header_message f)) (List.map_filter (header ps) ls)"
  by (induction ls) (auto simp: List.map_filter_simps split: option.splits)

lemma fold_participants:
  "set (participantsSet (foldl (next_state ps) st ls)) =
     set (participantsSet st) \<union> sender ` set (transcript ps ls)"
proof (induction ls arbitrary: st)
  case Nil
  show ?case by simp
next
  case (Cons l ls)
  show ?case
  proof (cases "header ps l")
    case None
    then have "set (participantsSet (next_state ps st l)) = set (participantsSet st)"
      by (simp add: next_state_def split: option.splits)
    with None show ?thesis by (simp add: Cons)
  next
    case (Some f)
    then have "trim l \<noteq> []" using header_blank by force
    then have "set (participantsSet (next_state ps st l)) =
        insert (sender (header_message f)) (set (participantsSet st))"
      using Some by (simp add: next_state_def set_set_add)
    with Some show ?thesis by (simp add: Cons)
  qed
qed

lemma fold_distinct:
  "distinct (participantsSet st) \<Longrightarrow> distinct (participantsSet (foldl (next_state ps) st ls))"
proof (induction ls arbitrary: st)
  case Nil
  then show ?case by simp
next
  case (Cons l ls)
  have "distinct (participantsSet (next_state ps st l))"
    using Cons.prems by (auto simp: next_state_def distinct_set_add split: option.splits)
  from Cons.IH[OF this] show ?case by simp
qed

lemma finish_participants:
  "finish valid st = Some r \<Longrightarrow> participants r = sort (participantsSet st)"
  by (auto simp: finish_def Let_def split: if_splits)

lemma trim_sender: "trim (trim s) = trim s"
proof -
  let ?a = "dropWhile is_white s"
  let ?b = "dropWhile is_white (rev ?a)"
  have hd_a: "?a \<noteq> [] \<Longrightarrow> \<not> is_white (hd ?a)"
    by (rule hd_dropWhile)
  have b_ne: "?b \<noteq> [] \<Longrightarrow> \<not> is_white (hd ?b)"
    by (rule hd_dropWhile)
  show ?thesis
  proof (cases "?b = []")
    case True
    then have "trim s = []" by (simp add: trim_def)
    then show ?thesis by (simp add: trim_Nil)
  next
    case False
    have a_ne: "?a \<noteq> []"
    proof
      assume "?a = []"
      then have "?b = dropWhile is_white (rev [])" by (rule arg_cong)
      then have "?b = []" by (simp only: rev.simps dropWhile.simps)
      with False show False by simp
    qed
    have "rev ?b \<noteq> []" using False by simp
    obtain zs where zs: "rev ?a = zs @ ?b"
      by (metis takeWhile_dropWhile_id)
    then have "?a = rev ?b @ rev zs" by (metis rev_append rev_rev_ident)
    then have "hd (rev ?b) = hd ?a" using \<open>rev ?b \<noteq> []\<close> by (metis hd_append2)
    then have "\<not> is_white (hd (rev ?b))" using hd_a a_ne by simp
    then have 1: "dropWhile is_white (rev ?b) = rev ?b"
      using \<open>rev ?b \<noteq> []\<close> by (cases "rev ?b") auto
    have 2: "dropWhile is_white ?b = ?b"
      using b_ne False by (cases ?b) auto
    show ?thesis
      unfolding trim_def 1 rev_rev_ident 2 ..
  qed
qed

subsection \<open>Source order\<close>

lemma started_by_header:
  "header ps l = Some f \<Longrightarrow>
   started_by ps l ((header_message f) \<lparr> message := message (header_message f) @ ys \<rparr>)"
  by (simp add: started_by_def)

lemma transcript_started:
  "list_all2 (started_by ps) (filter (is_header ps) ls) (transcript ps ls)"
proof (induction ls)
  case Nil
  show ?case by simp
next
  case (Cons l ls)
  show ?case
  proof (cases "header ps l")
    case None
    with Cons show ?thesis by (simp add: is_header_def)
  next
    case (Some f)
    have "started_by ps l ((header_message f) \<lparr> message :=
        join 0x0A (message (header_message f) # body_lines ps ls) \<rparr>)"
      unfolding join_Cons by (rule started_by_header[OF Some])
    moreover have "is_header ps l" using Some by (simp add: is_header_def)
    ultimately show ?thesis using Cons Some by simp
  qed
qed

lemma filter_indices:
  "map ((!) ls) (filter (\<lambda>i. P (ls ! i)) [0 ..< length ls]) = filter P ls"
proof -
  have "filter P (map ((!) ls) [0 ..< length ls]) =
      map ((!) ls) (filter (P \<circ> (!) ls) [0 ..< length ls])"
    by (rule filter_map)
  then show ?thesis by (simp add: map_nth comp_def)
qed

subsection \<open>Results of the parser\<close>

lemma is_header_patterns: "is_header patterns l \<longleftrightarrow> match_first patterns l \<noteq> None"
  by (simp add: is_header_def header_patterns_None_iff)

lemma parse_Some:
  assumes "transcript patterns (split 0x0A text) \<noteq> []"
  shows "\<exists>r. parseWhatsAppChat valid text = Inr (Some r) \<and>
           messages r = transcript patterns (split 0x0A text)"
proof -
  let ?st = "foldl (next_state patterns) init_state (split 0x0A text)"
  from assms have "finish valid ?st \<noteq> None"
    by (simp add: finish_None_iff run_transcript)
  then obtain r where r: "finish valid ?st = Some r" by blast
  from finish_messages[OF r] have "messages r = transcript patterns (split 0x0A text)"
    by (simp add: run_transcript)
  with r show ?thesis by (auto simp: parse_fold)
qed

lemma takeWhile_block:
  assumes "\<forall>l \<in> set cs. P l" and "post \<noteq> [] \<longrightarrow> \<not> P (hd post)"
  shows "takeWhile P (cs @ post) = cs"
proof (cases post)
  case Nil
  with assms(1) show ?thesis by simp
next
  case (Cons h rest)
  with assms(2) have "\<not> P h" by simp
  then have "takeWhile P (cs @ h # rest) = takeWhile P cs" by (rule takeWhile_stop)
  with assms(1) Cons show ?thesis by simp
qed

lemma body_lines_block:
  assumes "\<forall>l \<in> set cs. trim l \<noteq> [] \<and> header ps l = None"
    and "post \<noteq> [] \<longrightarrow> header ps (hd post) \<noteq> None"
  shows "body_lines ps (cs @ post) = cs"
proof -
  have "takeWhile (\<lambda>l. header ps l = None) (cs @ post) = cs"
    using assms by (intro takeWhile_block) auto
  then show ?thesis using assms(1) by (simp add: body_lines_def)
qed

lemma transcript_block:
  assumes "header ps h = Some f"
    and "\<forall>l \<in> set cs. trim l \<noteq> [] \<and> header ps l = None"
    and "post \<noteq> [] \<longrightarrow> header ps (hd post) \<noteq> None"
  shows "transcript ps (pre @ h # cs @ post) =
           transcript ps pre @
           (header_message f) \<lparr> message := join 0x0A (message (header_message f) # cs) \<rparr> #
           transcript ps post"
proof -
  have "transcript ps (pre @ h # cs @ post) = transcript ps pre @ transcript ps (h # cs @ post)"
    using assms(1) by (intro transcript_append_header) simp
  moreover have "transcript ps (cs @ post) = transcript ps post"
    using assms(2) by (intro transcript_skip) simp
  ultimately show ?thesis
    using assms(1) body_lines_block[OF assms(2,3)] by simp
qed

lemma header_message_sender: "trim (sender (header_message f)) = sender (header_message f)"
  by (cases f) (simp add: header_message_def trim_sender)

lemma transcript_trimmed:
  "msg \<in> set (transcript ps ls) \<Longrightarrow> trim (sender msg) = sender msg"
proof -
  assume "msg \<in> set (transcript ps ls)"
  then have "sender msg \<in> set (map sender (transcript ps ls))" by simp
  then obtain f where "sender msg = sender (header_message f)"
    unfolding transcript_senders by auto
  then show ?thesis by (simp add: header_message_sender)
qed

lemma header_indices_filter:
  "map ((!) ls) (header_indices patterns ls) = filter (is_header patterns) ls"
  unfolding header_indices_def is_header_patterns[symmetric]
  by (rule filter_indices)

subsection \<open>Backtracking that cannot succeed\<close>

lemma m_Grp: "m (Grp n body # rs) x c = m body x (close_group n x (\<lambda>y. m rs y c))"
proof -
  obtain i s caps where x: "x = (i, s, caps)" by (cases x) auto
  have "close_group n x (\<lambda>y. m rs y c) =
      (\<lambda>y. case y of (j, s', caps') \<Rightarrow> m rs (j, s', caps'(n \<mapsto> take (j - i) s)) c)"
    by (rule ext) (simp add: close_group_def x)
  then show ?thesis by (simp add: x)
qed

lemma m_Rep: "m (Rep cl lo hi # rs) x c = first_some (\<lambda>y. m rs y c) (rep_states cl lo hi x)"
  by simp

lemma below_refl: "below k k"
  unfolding below_def by blast

lemma below_trans: "below k k' \<Longrightarrow> below k' k'' \<Longrightarrow> below k k''"
  unfolding below_def by blast

lemma belowD: "below k k' \<Longrightarrow> k y = Some r \<Longrightarrow> k' y = Some r"
  unfolding below_def by blast

lemma first_some_cong:
  "(\<And>x. x \<in> set xs \<Longrightarrow> f x = g x) \<Longrightarrow> first_some f xs = first_some g xs"
  by (induction xs) (simp_all split: option.splits)

lemma rep_states_next:
  assumes "lo \<le> j" and "j < mx" and "mx \<le> length (takeWhile (cls_match cl) s)"
  shows "\<exists>ch s'. drop j s = ch # s' \<and> cls_match cl ch"
proof -
  from assms have j: "j < length (takeWhile (cls_match cl) s)" by simp
  then have js: "j < length s"
    using length_takeWhile_le[of "cls_match cl" s] by simp
  from j have "takeWhile (cls_match cl) s ! j \<in> set (takeWhile (cls_match cl) s)"
    by (rule nth_mem)
  then have "cls_match cl (takeWhile (cls_match cl) s ! j)"
    by (rule set_takeWhileD[THEN conjunct2])
  then have "cls_match cl (s ! j)" using j by (simp add: takeWhile_nth)
  moreover have "drop j s = s ! j # drop (Suc j) s"
    using js by (simp add: Cons_nth_drop_Suc)
  ultimately show ?thesis by blast
qed

lemma rep_states_shape:
  "rep_states cl lo hi (i, s, caps) =
     map (\<lambda>k. (i + k, drop k s, caps))
       (rev [lo ..< Suc (case hi of None \<Rightarrow> length (takeWhile (cls_match cl) s)
                         | Some h \<Rightarrow> min h (length (takeWhile (cls_match cl) s)))])"
  by (simp add: rep_states_def Let_def)

lemma rep_commit:
  assumes "rejects cl k"
  shows "first_some k (rep_states cl lo hi x) =
           (case rep_states cl lo hi x of [] \<Rightarrow> None | y # ys \<Rightarrow> k y)"
proof -
  obtain i s caps where x: "x = (i, s, caps)" by (cases x) auto
  let ?n = "length (takeWhile (cls_match cl) s)"
  let ?top = "case hi of None \<Rightarrow> ?n | Some h \<Rightarrow> min h ?n"
  let ?g = "\<lambda>k. (i + k, drop k s, caps)"
  have top: "?top \<le> ?n" by (simp split: option.splits)
  show ?thesis
  proof (cases "lo \<le> ?top")
    case False
    then have "rep_states cl lo hi x = []"
      unfolding x rep_states_shape by simp
    then show ?thesis by simp
  next
    case True
    then have "rev [lo ..< Suc ?top] = ?top # rev [lo ..< ?top]" by simp
    then have shape: "rep_states cl lo hi x = ?g ?top # map ?g (rev [lo ..< ?top])"
      unfolding x rep_states_shape by simp
    have "first_some k (map ?g (rev [lo ..< ?top])) = None"
      unfolding first_some_None_iff
    proof
      fix y assume "y \<in> set (map ?g (rev [lo ..< ?top]))"
      then obtain j where j: "lo \<le> j" "j < ?top" "y = ?g j" by auto
      from rep_states_next[OF j(1) j(2) top] obtain ch s' where
        "drop j s = ch # s'" "cls_match cl ch" by blast
      with assms j(3) show "k y = None" by (simp add: rejects_def)
    qed
    then show ?thesis unfolding shape by (simp split: option.splits)
  qed
qed

lemma rejects_Chr:
  assumes "\<And>ch. cls_match cl ch \<Longrightarrow> canonicalize ch \<noteq> canonicalize a"
  shows "rejects cl (\<lambda>y. m (Chr a # rs) y c)"
  using assms by (simp add: rejects_def)

lemma rejects_Cls:
  assumes "\<And>ch. cls_match cl ch \<Longrightarrow> \<not> cls_match cl' ch"
  shows "rejects cl (\<lambda>y. m (Cls cl' # rs) y c)"
  using assms by (simp add: rejects_def)

lemma rejects_Rep:
  assumes "1 \<le> lo" and "\<And>ch. cls_match cl ch \<Longrightarrow> \<not> cls_match cl' ch"
  shows "rejects cl (\<lambda>y. m (Rep cl' lo hi # rs) y c)"
  unfolding rejects_def
proof (intro allI impI)
  fix i ch s caps assume ch: "cls_match cl ch"
  show "m (Rep cl' lo hi # rs) (i, ch # s, caps) c = None"
  proof (rule ccontr)
    assume "m (Rep cl' lo hi # rs) (i, ch # s, caps) c \<noteq> None"
    then obtain r where "first_some (\<lambda>y. m rs y c) (rep_states cl' lo hi (i, ch # s, caps)) = Some r"
      by auto
    from rep_states_nonempty[OF this] assms(1) have "cls_match cl' ch"
      by (auto split: if_splits)
    with assms(2)[OF ch] show False by simp
  qed
qed

lemma rejects_Grp:
  assumes "\<And>c'. rejects cl (\<lambda>y. m body y c')"
  shows "rejects cl (\<lambda>y. m (Grp n body # rs) y c)"
  using assms unfolding m_Grp rejects_def by blast

lemma rejects_close_group:
  assumes "rejects cl k"
  shows "rejects cl (close_group n x k)"
  using assms by (simp add: rejects_def close_group_def)

lemma rejects_Nil: "rejects cl k \<Longrightarrow> rejects cl (\<lambda>y. m [] y k)"
  by simp

subsection \<open>Patterns that succeed together\<close>

lemma below_Chr:
  assumes "below (\<lambda>y. m rs y c) (\<lambda>y. m rs' y c')"
  shows "below (\<lambda>x. m (Chr a # rs) x c) (\<lambda>x. m (Chr a # rs') x c')"
  using assms by (auto simp: below_def split: list.splits if_splits)

lemma below_Cls:
  assumes "below (\<lambda>y. m rs y c) (\<lambda>y. m rs' y c')"
  shows "below (\<lambda>x. m (Cls cl # rs) x c) (\<lambda>x. m (Cls cl # rs') x c')"
  using assms by (auto simp: below_def split: list.splits if_splits)

lemma below_Rep:
  assumes "rejects cl (\<lambda>y. m rs y c)" and "rejects cl (\<lambda>y. m rs' y c')"
    and "below (\<lambda>y. m rs y c) (\<lambda>y. m rs' y c')"
  shows "below (\<lambda>x. m (Rep cl lo hi # rs) x c) (\<lambda>x. m (Rep cl lo hi # rs') x c')"
  unfolding m_Rep rep_commit[OF assms(1)] rep_commit[OF assms(2)]
  using assms(3) by (auto simp: below_def split: list.splits)

lemma rep_states_fixed:
  "rep_states cl n (Some n) x = [] \<or> (\<exists>y. rep_states cl n (Some n) x = [y])"
  by (cases x) (auto simp: rep_states_def Let_def min_def)

lemma below_Rep_fixed:
  assumes "below (\<lambda>y. m rs y c) (\<lambda>y. m rs' y c')"
  shows "below (\<lambda>x. m (Rep cl n (Some n) # rs) x c) (\<lambda>x. m (Rep cl n (Some n) # rs') x c')"
  unfolding m_Rep below_def
proof (intro allI impI)
  fix x r assume a: "first_some (\<lambda>y. m rs y c) (rep_states cl n (Some n) x) = Some r"
  from rep_states_fixed[of cl n x] a obtain y where y: "rep_states cl n (Some n) x = [y]"
    by auto
  with a have "m rs y c = Some r" by (simp split: option.splits)
  with assms have "m rs' y c' = Some r" by (rule belowD)
  then show "first_some (\<lambda>y. m rs' y c') (rep_states cl n (Some n) x) = Some r"
    by (simp add: y)
qed

lemma below_Grp:
  assumes "\<And>x. below (\<lambda>y. m body y (close_group n x (\<lambda>y. m rs y c)))
                      (\<lambda>y. m body' y (close_group n x (\<lambda>y. m rs' y c')))"
  shows "below (\<lambda>x. m (Grp n body # rs) x c) (\<lambda>x. m (Grp n body' # rs') x c')"
  unfolding m_Grp using assms by (simp add: below_def)

lemma below_close_group:
  assumes "below k k'"
  shows "below (\<lambda>y. m [] y (close_group n x k)) (\<lambda>y. m [] y (close_group n x k'))"
  using assms by (auto simp: below_def close_group_def)

lemma below_Trueprop_close:
  assumes "below k k'"
  shows "below (close_group n x k) (close_group n x k')"
  using assms by (auto simp: below_def close_group_def)

text \<open>The year: two digits before a character that is no digit are also two to four digits.\<close>

lemma below_year:
  assumes "rejects Digit (\<lambda>y. m rs y c)"
  shows "below (\<lambda>x. m (Rep Digit 2 (Some 2) # rs) x c) (\<lambda>x. m (Rep Digit 2 (Some 4) # rs) x c)"
  unfolding m_Rep rep_commit[OF assms] below_def
proof (intro allI impI)
  fix x r
  assume a: "(case rep_states Digit 2 (Some 2) x of [] \<Rightarrow> None | y # ys \<Rightarrow> m rs y c) = Some r"
  obtain i s caps where x: "x = (i, s, caps)" by (cases x) auto
  let ?n = "length (takeWhile (cls_match Digit) s)"
  from a have n2: "2 \<le> ?n"
    unfolding x rep_states_shape by (auto split: list.splits if_splits simp: min_def)
  then have "rep_states Digit 2 (Some 2) x = (i + 2, drop 2 s, caps) # []"
    unfolding x rep_states_shape by (simp add: min_def)
  with a have ok: "m rs (i + 2, drop 2 s, caps) c = Some r" by simp
  have "?n = 2"
  proof (rule ccontr)
    assume "?n \<noteq> 2"
    with n2 have "2 < ?n" by simp
    from rep_states_next[OF order_refl this order_refl] obtain ch s' where
      "drop 2 s = ch # s'" "cls_match Digit ch" by blast
    with assms ok show False by (simp add: rejects_def)
  qed
  then have "rep_states Digit 2 (Some 4) x = (i + 2, drop 2 s, caps) # []"
    unfolding x rep_states_shape by (simp add: min_def)
  with ok show "(case rep_states Digit 2 (Some 4) x of [] \<Rightarrow> None | y # ys \<Rightarrow> m rs y c) = Some r"
    by simp
qed

subsection \<open>The patterns 3 and 4 against the pattern 2\<close>

lemma digit_canonicalize: "is_digit ch \<Longrightarrow> canonicalize ch = ch"
  unfolding is_digit_def canonicalize_def by (auto simp: word_le_nat_alt)

lemma digit_not_slash: "cls_match Digit ch \<Longrightarrow> canonicalize ch \<noteq> canonicalize 0x2F"
  using digit_canonicalize[of ch] by (auto simp: is_digit_def canonicalize_def)

lemma digit_not_comma: "cls_match Digit ch \<Longrightarrow> canonicalize ch \<noteq> canonicalize 0x2C"
  using digit_canonicalize[of ch] by (auto simp: is_digit_def canonicalize_def)

lemma digit_not_colon: "cls_match Digit ch \<Longrightarrow> canonicalize ch \<noteq> canonicalize 0x3A"
  using digit_canonicalize[of ch] by (auto simp: is_digit_def canonicalize_def)

lemma space_not_digit: "cls_match Space ch \<Longrightarrow> \<not> cls_match Digit ch"
  by (simp add: white_not_digit)

lemma below_date_rx:
  assumes "rejects Digit k" and "rejects Digit k'" and "below k k'"
  shows "below (\<lambda>y. m (date_rx lo hi) y k) (\<lambda>y. m (date_rx lo hi) y k')"
  unfolding date_rx_def
  by (intro below_Rep below_Chr rejects_Chr digit_not_slash)
     (simp_all add: assms)

lemma below_date_year:
  assumes "rejects Digit k"
  shows "below (\<lambda>y. m (date_rx 2 2) y k) (\<lambda>y. m (date_rx 2 4) y k)"
  unfolding date_rx_def
  by (intro below_Rep below_Chr below_year rejects_Chr rejects_Rep digit_not_slash)
     (simp_all add: assms)

lemma rep_states_fst: "y \<in> set (rep_states cl lo hi x) \<Longrightarrow> fst x \<le> fst y"
  by (cases x) (auto simp: rep_states_def Let_def)

lemma ampm_progress:
  "m ampm_rx x k = m ampm_rx x (\<lambda>y. if fst y = fst x then None else k y)"
  unfolding ampm_rx_def m_Rep
proof (rule first_some_cong)
  fix y assume "y \<in> set (rep_states Space 0 None x)"
  from rep_states_fst[OF this] have le: "fst x \<le> fst y" .
  obtain i s caps where y: "y = (i, s, caps)" by (cases y) auto
  from le y show "m [Cls (OneOf [0x41, 0x50]), Chr 0x4D] y k =
      m [Cls (OneOf [0x41, 0x50]), Chr 0x4D] y (\<lambda>y. if fst y = fst x then None else k y)"
    by (auto split: list.splits)
qed

lemma below_ampm: "below (\<lambda>y. m ampm_rx y k) (\<lambda>y. m [Opt ampm_rx] y k)"
  unfolding below_def
proof (intro allI impI)
  fix y r assume "m ampm_rx y k = Some r"
  then have "m ampm_rx y (\<lambda>z. if fst z = fst y then None else k z) = Some r"
    unfolding ampm_progress[of y k] .
  then show "m [Opt ampm_rx] y k = Some r" by (simp cong: if_cong)
qed

lemma pattern2_tl:
  "tl pattern2 =
     Grp 1 (date_rx 2 4) # Chr 0x2C # Rep Space 0 None #
     Grp 2 (Rep Digit 1 (Some 2) # Chr 0x3A # Rep Digit 2 (Some 2) # [Opt ampm_rx]) #
     Rep Space 0 None # Chr 0x2D # Rep Space 0 None # sender_rx"
  by (simp add: pattern2_def)

lemma pattern3_tl:
  "tl pattern3 =
     Grp 1 (date_rx 2 2) # Chr 0x2C # Rep Space 0 None #
     Grp 2 (Rep Digit 1 (Some 2) # Chr 0x3A # Rep Digit 2 (Some 2) # [Opt ampm_rx]) #
     Rep Space 0 None # Chr 0x2D # Rep Space 0 None # sender_rx"
  by (simp add: pattern3_def)

lemma pattern4_tl:
  "tl pattern4 =
     Grp 1 (date_rx 2 2) # Chr 0x2C # Rep Space 0 None #
     Grp 2 (Rep Digit 1 (Some 2) # Chr 0x3A # Rep Digit 2 (Some 2) # ampm_rx) #
     Rep Space 0 None # Chr 0x2D # Rep Space 0 None # sender_rx"
  by (simp add: pattern4_def)

lemma rejects_comma: "rejects Digit (\<lambda>y. m (Chr 0x2C # rs) y c)"
  by (rule rejects_Chr) (rule digit_not_comma)

lemma rejects_colon: "rejects Digit (\<lambda>y. m (Chr 0x3A # rs) y c)"
  by (rule rejects_Chr) (rule digit_not_colon)

lemma rejects_time: "rejects Space (\<lambda>y. m (Grp 2 (Rep Digit 1 (Some 2) # body) # rs) y c)"
  by (intro rejects_Grp rejects_Rep space_not_digit) simp

lemma below_pattern3_2:
  "below (\<lambda>x. m (tl pattern3) x Some) (\<lambda>x. m (tl pattern2) x Some)"
  unfolding pattern3_tl pattern2_tl
  by (intro below_Grp below_date_year rejects_close_group rejects_comma)

lemma below_time:
  "below (\<lambda>y. m (Rep Digit 1 (Some 2) # Chr 0x3A # Rep Digit 2 (Some 2) # ampm_rx) y k)
         (\<lambda>y. m (Rep Digit 1 (Some 2) # Chr 0x3A # Rep Digit 2 (Some 2) # [Opt ampm_rx]) y k)"
  by (intro below_Rep below_Chr below_Rep_fixed below_ampm rejects_colon)

lemma below_pattern4_3:
  "below (\<lambda>x. m (tl pattern4) x Some) (\<lambda>x. m (tl pattern3) x Some)"
  unfolding pattern4_tl pattern3_tl
  by (intro below_Grp below_date_rx rejects_close_group rejects_comma below_Trueprop_close
      below_Chr below_Rep rejects_time below_time)

lemma below_exec:
  assumes "below (\<lambda>x. m (tl p) x Some) (\<lambda>x. m (tl q) x Some)"
    and "hd p = Bol" and "hd q = Bol" and "p \<noteq> []" and "q \<noteq> []"
    and "regexp_exec p line = Some mt"
  shows "regexp_exec q line = Some mt"
proof -
  from assms(2,4) have p: "p = Bol # tl p" by (cases p) auto
  from assms(3,5) have q: "q = Bol # tl q" by (cases q) auto
  from assms(6) obtain y where y: "m (tl p) (0, line, Map.empty) Some = Some y"
    and mt: "mt = snd (snd y)"
    by (subst (asm) p) (auto simp: regexp_exec_Bol)
  from belowD[OF assms(1) y] have "m (tl q) (0, line, Map.empty) Some = Some y" .
  then show ?thesis
    by (subst q) (simp add: regexp_exec_Bol mt)
qed

lemma pattern3_2:
  "regexp_exec pattern3 line = Some mt \<Longrightarrow> regexp_exec pattern2 line = Some mt"
  by (rule below_exec[OF below_pattern3_2]) (simp_all add: pattern3_def pattern2_def)

lemma pattern4_3:
  "regexp_exec pattern4 line = Some mt \<Longrightarrow> regexp_exec pattern3 line = Some mt"
  by (rule below_exec[OF below_pattern4_3]) (simp_all add: pattern4_def pattern3_def)

lemma match_first_two:
  "match_first [pattern1, pattern2] line = match_first patterns line"
proof (cases "regexp_exec pattern1 line")
  case (Some mt)
  then show ?thesis by (simp add: match_first_def patterns_def)
next
  case n1: None
  show ?thesis
  proof (cases "regexp_exec pattern2 line")
    case (Some mt)
    then show ?thesis using n1 by (simp add: match_first_def patterns_def)
  next
    case n2: None
    have n3: "regexp_exec pattern3 line = None"
      using pattern3_2[of line] n2 by (cases "regexp_exec pattern3 line") auto
    have n4: "regexp_exec pattern4 line = None"
      using pattern4_3[of line] n3 by (cases "regexp_exec pattern4 line") auto
    show ?thesis using n1 n2 n3 n4 by (simp add: match_first_def patterns_def)
  qed
qed

lemma loop_body_two:
  "loop_body [pattern1, pattern2] st line = loop_body patterns st line"
  by (simp add: loop_body_def match_first_two)

lemma for_lines_two:
  "for_lines [pattern1, pattern2] ls st = for_lines patterns ls st"
  by (induction ls arbitrary: st) (simp_all add: loop_body_two split: sum.splits)

section \<open>The claims\<close>

text \<open>
  C1. For every input, the parser returns the absent result exactly when no line matches
  any of the header patterns, which is the case of the empty string; otherwise it returns
  a result, whose messages are not empty.
\<close>

theorem parse_absent_iff:
  "(parseWhatsAppChat valid text = Inr None \<longleftrightarrow>
      (\<forall>line \<in> set (split 0x0A text). \<forall>p \<in> set patterns. regexp_exec p line = None))
   \<and> (parseWhatsAppChat valid text \<noteq> Inr None \<longrightarrow>
      (\<exists>r. parseWhatsAppChat valid text = Inr (Some r) \<and> messages r \<noteq> [] \<and>
           messageCount r = length (messages r)))
   \<and> parseWhatsAppChat valid [] = Inr None"
proof (intro conjI)
  have "parseWhatsAppChat valid text = Inr None \<longleftrightarrow> transcript patterns (split 0x0A text) = []"
    by (rule parse_None_iff)
  also have "\<dots> \<longleftrightarrow> (\<forall>line \<in> set (split 0x0A text). match_first patterns line = None)"
    by (simp add: transcript_Nil_iff header_patterns_None_iff)
  finally show "parseWhatsAppChat valid text = Inr None \<longleftrightarrow>
      (\<forall>line \<in> set (split 0x0A text). \<forall>p \<in> set patterns. regexp_exec p line = None)"
    by (simp add: match_first_None_iff)
  show "parseWhatsAppChat valid text \<noteq> Inr None \<longrightarrow>
      (\<exists>r. parseWhatsAppChat valid text = Inr (Some r) \<and> messages r \<noteq> [] \<and>
           messageCount r = length (messages r))"
    by (auto simp: parse_fold finish_def Let_def)
  show "parseWhatsAppChat valid [] = Inr None"
    unfolding parse_None_iff by (simp add: header_blank trim_Nil)
qed

theorem parse_absent_iff_witness:
  "parseWhatsAppChat iso_host (js ''how are you?'') = Inr None
   \<and> parseWhatsAppChat iso_host example_chat \<noteq> Inr None"
proof -
  have a: "\<forall>line \<in> set (split 0x0A (js ''how are you?'')). \<forall>p \<in> set patterns.
      regexp_exec p line = None"
    by code_simp
  have b: "\<not> (\<forall>line \<in> set (split 0x0A example_chat). \<forall>p \<in> set patterns.
      regexp_exec p line = None)"
    by code_simp
  show ?thesis
    using a b parse_absent_iff[of iso_host "js ''how are you?''"]
      parse_absent_iff[of iso_host example_chat]
    by blast
qed

text \<open>
  C2. The date range follows the verdict of the host's date constructor on the date token
  split at the slashes, reversed and joined by dashes, and not the calendar. On a host
  that rejects \<open>23-5-12\<close>, a message of 12/5/23, a day of the calendar, has the sentinel
  \<open>N/A\<close> at both ends of its date range; on a host that accepts \<open>2023-02-31\<close>, a message
  of 31/02/2023, which is no day of the calendar, has that token at both ends.
\<close>

theorem date_range_host_verdict:
  "(\<not> valid (js ''23-5-12'') \<longrightarrow>
      parseWhatsAppChat valid (js ''[12/5/23, 9:04] A: x'') =
        Inr (Some (single_result (js ''12/5/23'') (js ''N/A''))))
   \<and> (valid (js ''2023-02-31'') \<longrightarrow>
      parseWhatsAppChat valid (js ''[31/02/2023, 9:04] A: x'') =
        Inr (Some (single_result (js ''31/02/2023'') (js ''31/02/2023''))))"
  by (simp add: single_parse)

theorem date_range_host_verdict_witness:
  "parseWhatsAppChat iso_host (js ''[12/5/23, 9:04] A: x'') =
     Inr (Some (single_result (js ''12/5/23'') (js ''N/A'')))
   \<and> parseWhatsAppChat iso_host (js ''[31/02/2023, 9:04] A: x'') =
     Inr (Some (single_result (js ''31/02/2023'') (js ''31/02/2023'')))"
  using date_range_host_verdict[of iso_host] example_hosts by blast

text \<open>
  C3. When the lines of the input are some lines, then a header line, then lines that
  are neither blank nor header lines, and then either nothing or a header line and the
  rest, the message of that header line has as its body the trimmed trailing text of the
  header line and those lines, in their order, joined by single newlines; it is the
  message number \<open>k\<close>, where \<open>k\<close> header lines come before it, and the last message when
  nothing follows. And the message that is open when the loop ends is the last message
  of the result.
\<close>

theorem continuation_joined:
  "(split 0x0A text = pre @ hdr # conts @ post \<and>
    header patterns hdr = Some (d, t, s, b) \<and>
    (\<forall>l \<in> set conts. trim l \<noteq> [] \<and> match_first patterns l = None) \<and>
    (post \<noteq> [] \<longrightarrow> match_first patterns (hd post) \<noteq> None) \<and>
    k = length (filter (\<lambda>l. match_first patterns l \<noteq> None) pre)
    \<longrightarrow> (\<exists>r. parseWhatsAppChat valid text = Inr (Some r) \<and> k < length (messages r) \<and>
           message (messages r ! k) = join 0x0A (trim b # conts) \<and>
           (post = [] \<longrightarrow> last (messages r) = messages r ! k)))
   \<and> (for_lines patterns (split 0x0A text) init_state = Inr st \<and> currentMessage st = Some c
    \<longrightarrow> (\<exists>r. parseWhatsAppChat valid text = Inr (Some r) \<and> last (messages r) = c))"
proof (intro conjI impI)
  assume a: "split 0x0A text = pre @ hdr # conts @ post \<and>
    header patterns hdr = Some (d, t, s, b) \<and>
    (\<forall>l \<in> set conts. trim l \<noteq> [] \<and> match_first patterns l = None) \<and>
    (post \<noteq> [] \<longrightarrow> match_first patterns (hd post) \<noteq> None) \<and>
    k = length (filter (\<lambda>l. match_first patterns l \<noteq> None) pre)"
  let ?f = "(d, t, s, b)"
  let ?msg = "(header_message ?f) \<lparr> message := join 0x0A (message (header_message ?f) # conts) \<rparr>"
  have tr: "transcript patterns (split 0x0A text) =
      transcript patterns pre @ ?msg # transcript patterns post"
    using a by (simp add: transcript_block header_patterns_None_iff)
  have "(\<lambda>l. match_first patterns l \<noteq> None) = is_header patterns"
    unfolding is_header_patterns ..
  with a have k: "k = length (transcript patterns pre)"
    unfolding transcript_length by simp
  from tr have "transcript patterns (split 0x0A text) \<noteq> []" by simp
  from parse_Some[OF this, of valid] obtain r where
    r: "parseWhatsAppChat valid text = Inr (Some r)"
       "messages r = transcript patterns (split 0x0A text)" by blast
  have 1: "k < length (messages r)" by (simp add: r(2) tr k)
  have 2: "messages r ! k = ?msg" by (simp add: r(2) tr k)
  have 3: "message ?msg = join 0x0A (trim b # conts)" by (simp add: header_message_def)
  have 4: "post = [] \<longrightarrow> last (messages r) = messages r ! k"
    by (simp add: r(2) tr k)
  from r(1) 1 2 3 4 show "\<exists>r. parseWhatsAppChat valid text = Inr (Some r) \<and>
      k < length (messages r) \<and> message (messages r ! k) = join 0x0A (trim b # conts) \<and>
      (post = [] \<longrightarrow> last (messages r) = messages r ! k)"
    by auto
next
  assume b: "for_lines patterns (split 0x0A text) init_state = Inr st \<and> currentMessage st = Some c"
  then have st: "st = foldl (next_state patterns) init_state (split 0x0A text)"
    by (simp add: for_lines_safe[OF safe_patterns])
  from b have pc: "push_current st = pushed st @ [c]" by (simp add: push_current_def)
  then have "transcript patterns (split 0x0A text) \<noteq> []"
    unfolding st run_transcript by simp
  from parse_Some[OF this, of valid] obtain r where
    r: "parseWhatsAppChat valid text = Inr (Some r)"
       "messages r = transcript patterns (split 0x0A text)" by blast
  have "messages r = pushed st @ [c]"
    using pc unfolding st run_transcript r(2) .
  with r(1) show "\<exists>r. parseWhatsAppChat valid text = Inr (Some r) \<and> last (messages r) = c"
    by auto
qed

theorem continuation_joined_witness:
  "(\<exists>r. parseWhatsAppChat iso_host example_chat = Inr (Some r) \<and> 0 < length (messages r) \<and>
       message (messages r ! 0) = js ''Hello there'' @ 0x0A # js ''how are you?'')
   \<and> (\<exists>r. parseWhatsAppChat iso_host example_chat = Inr (Some r) \<and>
       last (messages r) = example_bob)"
proof -
  have 1: "split 0x0A example_chat =
      [] @ js ''[12/5/23, 9:04:01 PM] Alice: Hello there'' # [js ''how are you?''] @
      [js ''[12/5/23, 9:05:00 PM] Bob: I'm fine'']"
    by (simp add: example_split example_lines_def)
  have 2: "header patterns (js ''[12/5/23, 9:04:01 PM] Alice: Hello there'') =
      Some (js ''12/5/23'', js ''9:04:01 PM'', js ''Alice'', js ''Hello there'')"
    by code_simp
  have 3: "\<forall>l \<in> set [js ''how are you?'']. trim l \<noteq> [] \<and> match_first patterns l = None"
    by code_simp
  have 4: "[js ''[12/5/23, 9:05:00 PM] Bob: I'm fine''] \<noteq> [] \<longrightarrow>
      match_first patterns (hd [js ''[12/5/23, 9:05:00 PM] Bob: I'm fine'']) \<noteq> None"
    by code_simp
  have 5: "0 = length (filter (\<lambda>l. match_first patterns l \<noteq> None) [])" by simp
  have 6: "join 0x0A [trim (js ''Hello there''), js ''how are you?''] =
      js ''Hello there'' @ 0x0A # js ''how are you?''"
    by code_simp
  from continuation_joined[of example_chat "[]" "js ''[12/5/23, 9:04:01 PM] Alice: Hello there''"
      "[js ''how are you?'']" "[js ''[12/5/23, 9:05:00 PM] Bob: I'm fine'']"
      "js ''12/5/23''" "js ''9:04:01 PM''" "js ''Alice''" "js ''Hello there''" 0 iso_host]
    1 2 3 4 5
  have first: "\<exists>r. parseWhatsAppChat iso_host example_chat = Inr (Some r) \<and>
      0 < length (messages r) \<and>
      message (messages r ! 0) = js ''Hello there'' @ 0x0A # js ''how are you?''"
    unfolding 6 by blast
  let ?st = "\<lparr> pushed = [example_alice], participantsSet = [js ''Alice'', js ''Bob''],
      currentMessage = Some example_bob \<rparr>"
  have 7: "for_lines patterns (split 0x0A example_chat) init_state = Inr ?st \<and>
      currentMessage ?st = Some example_bob"
    by (simp add: example_split example_loop)
  from continuation_joined[of example_chat _ _ _ _ _ _ _ _ _ iso_host ?st example_bob] 7
  have "\<exists>r. parseWhatsAppChat iso_host example_chat = Inr (Some r) \<and>
      last (messages r) = example_bob"
    by blast
  with first show ?thesis by blast
qed

text \<open>
  C4. The participants of a result are the senders of its messages, each once, in the
  order of their code units; every sender is trimmed.
\<close>

theorem participants_sorted_distinct:
  assumes "parseWhatsAppChat valid text = Inr (Some r)"
  shows "participants r = sorted_list_of_set (sender ` set (messages r))
       \<and> sorted (participants r) \<and> distinct (participants r)
       \<and> (\<forall>msg \<in> set (messages r). trim (sender msg) = sender msg)"
proof -
  let ?st = "foldl (next_state patterns) init_state (split 0x0A text)"
  from assms have st: "finish valid ?st = Some r" by (simp add: parse_fold)
  have ms: "messages r = transcript patterns (split 0x0A text)"
    by (rule parse_messages[OF assms])
  have p: "participants r = sort (participantsSet ?st)"
    by (rule finish_participants[OF st])
  have s: "set (participantsSet ?st) = sender ` set (messages r)"
    unfolding fold_participants ms by (simp add: init_state_def)
  have d: "distinct (participantsSet ?st)"
    by (rule fold_distinct) (simp add: init_state_def)
  have "sorted_list_of_set (set (participantsSet ?st)) = sort (remdups (participantsSet ?st))"
    by (rule sorted_list_of_set_sort_remdups)
  then have 1: "participants r = sorted_list_of_set (sender ` set (messages r))"
    using d by (simp add: p s[symmetric] distinct_remdups_id)
  have 2: "sorted (participants r)" unfolding p by (rule sorted_sort)
  have 3: "distinct (participants r)" unfolding p using d by simp
  have 4: "\<forall>msg \<in> set (messages r). trim (sender msg) = sender msg"
    unfolding ms using transcript_trimmed by blast
  from 1 2 3 4 show ?thesis by blast
qed

theorem participants_sorted_distinct_witness:
  "participants (example_result (js ''N/A'')) =
     sorted_list_of_set (sender ` set (messages (example_result (js ''N/A''))))"
proof -
  have h: "parseWhatsAppChat iso_host example_chat = Inr (Some (example_result (js ''N/A'')))"
    by (simp add: parseWhatsAppChat_def example_parse example_hosts)
  from participants_sorted_distinct[OF h] show ?thesis by blast
qed

text \<open>
  C5. The messages of a result are in the order of their header lines: the message
  number \<open>k\<close> is started by the header line number \<open>k\<close>, the numbers of the header lines
  increase strictly, and the message count is the number of messages.
\<close>

theorem messages_in_source_order:
  assumes "parseWhatsAppChat valid text = Inr (Some r)"
  shows "sorted_wrt (<) (header_indices patterns (split 0x0A text))
       \<and> length (messages r) = length (header_indices patterns (split 0x0A text))
       \<and> messageCount r = length (messages r)
       \<and> (\<forall>k < length (messages r).
            started_by patterns
              (split 0x0A text ! (header_indices patterns (split 0x0A text) ! k))
              (messages r ! k))"
proof -
  let ?ls = "split 0x0A text"
  let ?idx = "header_indices patterns ?ls"
  have ms: "messages r = transcript patterns ?ls"
    by (rule parse_messages[OF assms])
  have all: "list_all2 (started_by patterns) (map ((!) ?ls) ?idx) (messages r)"
    unfolding header_indices_filter ms by (rule transcript_started)
  have 1: "sorted_wrt (<) ?idx"
    unfolding header_indices_def by (rule sorted_wrt_filter) simp
  have 2: "length (messages r) = length ?idx"
    using list_all2_lengthD[OF all] by simp
  have 3: "messageCount r = length (messages r)"
    using assms by (auto simp: parse_fold finish_def Let_def split: if_splits)
  have 4: "\<forall>k < length (messages r). started_by patterns (?ls ! (?idx ! k)) (messages r ! k)"
  proof (intro allI impI)
    fix k assume k: "k < length (messages r)"
    then have "k < length (map ((!) ?ls) ?idx)" using 2 by simp
    from list_all2_nthD[OF all this] k 2
    show "started_by patterns (?ls ! (?idx ! k)) (messages r ! k)" by simp
  qed
  from 1 2 3 4 show ?thesis by blast
qed

theorem messages_in_source_order_witness:
  "header_indices patterns (split 0x0A example_chat) = [0, 2]
   \<and> started_by patterns (split 0x0A example_chat ! 2) (messages (example_result (js ''N/A'')) ! 1)"
proof -
  have h: "parseWhatsAppChat iso_host example_chat = Inr (Some (example_result (js ''N/A'')))"
    by (simp add: parseWhatsAppChat_def example_parse example_hosts)
  have i: "header_indices patterns (split 0x0A example_chat) = [0, 2]"
    by code_simp
  have l: "(1::nat) < length (messages (example_result (js ''N/A'')))"
    by (simp add: example_result_def example_messages_def)
  from messages_in_source_order[OF h] l
  have "started_by patterns
      (split 0x0A example_chat ! (header_indices patterns (split 0x0A example_chat) ! 1))
      (messages (example_result (js ''N/A'')) ! 1)"
    by blast
  then show ?thesis unfolding i by simp
qed

text \<open>
  C6. Parsing the three lines of the example gives the two messages of Alice and Bob, the
  participants Alice and Bob and the message count 2, as the specification says; on a
  host whose date constructor rejects the reversed token \<open>23-5-12\<close>, both ends of the
  date range are the sentinel \<open>N/A\<close>, and not \<open>12/5/23\<close>.
\<close>

theorem example_scenario:
  assumes "\<not> valid (js ''23-5-12'')"
  shows "parseWhatsAppChat valid example_chat = Inr (Some (example_result (js ''N/A'')))
       \<and> range_start (dateRange (example_result (js ''N/A''))) \<noteq> js ''12/5/23''"
proof -
  have "js ''N/A'' \<noteq> js ''12/5/23''" by code_simp
  with assms show ?thesis
    by (simp add: parseWhatsAppChat_def example_parse example_result_def)
qed

theorem example_scenario_witness:
  "parseWhatsAppChat iso_host example_chat = Inr (Some (example_result (js ''N/A'')))
   \<and> range_start (dateRange (example_result (js ''N/A''))) \<noteq> js ''12/5/23''"
  by (rule example_scenario[of iso_host, OF example_hosts(1)])

text \<open>
  C7. A blank line leaves the state of the loop as it is: it starts no message, is not
  appended to the open message and does not close it. So the parser gives the same result
  on the input without the blank line: the line is absent from every body, and the lines
  after it are appended to the message that was open before it.
\<close>

theorem blank_line_skipped:
  assumes "trim blank = []" and "\<forall>l \<in> set (pre @ blank # post). 0x0A \<notin> set l"
  shows "loop_body patterns st blank = Inr st
       \<and> parseWhatsAppChat valid (join 0x0A (pre @ blank # post)) =
           parseWhatsAppChat valid (join 0x0A (pre @ post))"
proof -
  have 1: "loop_body patterns st blank = Inr st"
    by (rule loop_body_blank[OF assms(1)])
  have a: "\<forall>l \<in> set (pre @ post). 0x0A \<notin> set l" using assms(2) by auto
  have 2: "parseWhatsAppChat valid (join 0x0A (pre @ blank # post)) =
      parseWhatsAppChat valid (join 0x0A (pre @ post))"
    unfolding parseWhatsAppChat_def parse_join[OF assms(2)] parse_join[OF a]
    by (simp add: parse_lines_def for_lines_drop_blank[OF assms(1)])
  from 1 2 show ?thesis by blast
qed

theorem blank_line_skipped_witness:
  "loop_body patterns init_state (js ''  '') = Inr init_state
   \<and> parseWhatsAppChat iso_host
       (join 0x0A ([js ''[12/5/23, 9:04:01 PM] Alice: Hello there''] @ js ''  '' #
          [js ''how are you?''])) =
     parseWhatsAppChat iso_host
       (join 0x0A ([js ''[12/5/23, 9:04:01 PM] Alice: Hello there''] @ [js ''how are you?'']))"
proof -
  have 1: "trim (js ''  '') = []" by code_simp
  have 2: "\<forall>l \<in> set ([js ''[12/5/23, 9:04:01 PM] Alice: Hello there''] @ js ''  '' #
          [js ''how are you?'']). 0x0A \<notin> set l"
    by code_simp
  show ?thesis by (rule blank_line_skipped[OF 1 2])
qed

text \<open>
  C8. The lines before the first header line have no effect: the parser gives the same
  result on the input without them, so they are in no body.
\<close>

theorem leading_lines_discarded:
  assumes "\<forall>l \<in> set pre. \<forall>p \<in> set patterns. regexp_exec p l = None"
    and "\<forall>l \<in> set (pre @ post). 0x0A \<notin> set l"
  shows "for_lines patterns pre init_state = Inr init_state
       \<and> parseWhatsAppChat valid (join 0x0A (pre @ post)) =
           parseWhatsAppChat valid (join 0x0A post)"
proof -
  from assms(1) have n: "\<forall>l \<in> set pre. match_first patterns l = None"
    by (simp add: match_first_None_iff)
  have 1: "for_lines patterns pre init_state = Inr init_state"
    by (rule for_lines_leading[OF n])
  have a: "\<forall>l \<in> set post. 0x0A \<notin> set l" using assms(2) by auto
  have 2: "parseWhatsAppChat valid (join 0x0A (pre @ post)) =
      parseWhatsAppChat valid (join 0x0A post)"
    unfolding parseWhatsAppChat_def parse_join[OF assms(2)] parse_join[OF a]
    by (simp add: parse_lines_def for_lines_append 1)
  from 1 2 show ?thesis by blast
qed

theorem leading_lines_discarded_witness:
  "for_lines patterns [js ''Messages are encrypted.''] init_state = Inr init_state
   \<and> parseWhatsAppChat iso_host (join 0x0A ([js ''Messages are encrypted.''] @ example_lines)) =
     parseWhatsAppChat iso_host (join 0x0A example_lines)"
proof -
  have 1: "\<forall>l \<in> set [js ''Messages are encrypted.'']. \<forall>p \<in> set patterns. regexp_exec p l = None"
    by code_simp
  have 2: "\<forall>l \<in> set ([js ''Messages are encrypted.''] @ example_lines). 0x0A \<notin> set l"
    by code_simp
  show ?thesis by (rule leading_lines_discarded[OF 1 2])
qed

text \<open>
  C9. A line that the third or the fourth pattern matches is matched by the second
  pattern with the same captures, so the parser with the first two patterns only gives
  the result of the parser with the four patterns on every input.
\<close>

theorem patterns_3_4_redundant:
  "(regexp_exec pattern3 line = Some mt \<longrightarrow> regexp_exec pattern2 line = Some mt)
   \<and> (regexp_exec pattern4 line = Some mt \<longrightarrow> regexp_exec pattern2 line = Some mt)
   \<and> parse_with [pattern1, pattern2] valid text = parseWhatsAppChat valid text"
proof (intro conjI impI)
  assume "regexp_exec pattern3 line = Some mt"
  then show "regexp_exec pattern2 line = Some mt" by (rule pattern3_2)
next
  assume "regexp_exec pattern4 line = Some mt"
  then have "regexp_exec pattern3 line = Some mt" by (rule pattern4_3)
  then show "regexp_exec pattern2 line = Some mt" by (rule pattern3_2)
next
  show "parse_with [pattern1, pattern2] valid text = parseWhatsAppChat valid text"
    by (simp add: parseWhatsAppChat_def parse_with_def parse_lines_def for_lines_two)
qed

theorem patterns_3_4_redundant_witness:
  "map_option (\<lambda>c. map c [1, 2, 3, 4])
     (regexp_exec pattern2 (js ''12/5/23, 9:04 pm - Alice: Hello there'')) =
   Some [Some (js ''12/5/23''), Some (js ''9:04 pm''), Some (js ''Alice''),
         Some (js ''Hello there'')]"
proof -
  let ?l = "js ''12/5/23, 9:04 pm - Alice: Hello there''"
  have e: "map_option (\<lambda>c. map c [1, 2, 3, 4]) (regexp_exec pattern4 ?l) =
      Some [Some (js ''12/5/23''), Some (js ''9:04 pm''), Some (js ''Alice''),
            Some (js ''Hello there'')]"
    by code_simp
  then obtain mt where mt: "regexp_exec pattern4 ?l = Some mt" by auto
  have "regexp_exec pattern3 ?l \<noteq> None" by code_simp
  then obtain mt' where mt': "regexp_exec pattern3 ?l = Some mt'" by auto
  from patterns_3_4_redundant[of ?l mt'] mt' have 3: "regexp_exec pattern2 ?l = Some mt'"
    by blast
  from patterns_3_4_redundant[of ?l mt] mt have "regexp_exec pattern2 ?l = Some mt" by blast
  with e mt show ?thesis by simp
qed

text \<open>
  C10. Every result carries the group name \<open>Zero to One\<close>, whatever the input.
\<close>

theorem groupName_constant:
  assumes "parseWhatsAppChat valid text = Inr (Some r)"
  shows "groupName r = js ''Zero to One''"
  using assms by (auto simp: parse_fold finish_def Let_def split: if_splits)

theorem groupName_constant_witness:
  "groupName (example_result (js ''N/A'')) = js ''Zero to One''"
proof -
  have h: "parseWhatsAppChat iso_host example_chat = Inr (Some (example_result (js ''N/A'')))"
    by (simp add: parseWhatsAppChat_def example_parse example_hosts)
  show ?thesis by (rule groupName_constant[OF h])
qed

end
